theory Spec2Isabelle
  imports Complex_Main
begin

section \<open>Errors and Python indexing\<close>

text \<open>
  The exceptions the modelled functions can raise. \<open>AssertShape\<close> and \<open>AssertSplit\<close> are
  the two \<open>assert\<close> statements of \<open>CKY.to_parts\<close> (\<open>S == NT + T\<close> and \<open>B is not None\<close>).
\<close>

datatype error = IndexError | RuntimeError | ValueError | TypeError | AssertShape | AssertSplit

text \<open>Indexing an axis of size \<open>n\<close> with a Python integer: a negative index counts from the end.\<close>

definition py_index :: "nat \<Rightarrow> int \<Rightarrow> error + nat" where
  "py_index n i =
     (let j = (if i < 0 then int n + i else i)
      in if 0 \<le> j \<and> j < int n then Inr (nat j) else Inl IndexError)"

text \<open>Running a list of fallible computations in order: the first exception wins.\<close>

fun collect :: "(error + 'a) list \<Rightarrow> error + 'a list" where
  "collect [] = Inr []"
| "collect (Inl e # rs) = Inl e"
| "collect (Inr v # rs) = (case collect rs of Inl e \<Rightarrow> Inl e | Inr vs \<Rightarrow> Inr (v # vs))"

section \<open>Potentials of the grammar\<close>

text \<open>
  The \<open>scores\<close> tuple \<open>(terms, rules, roots)\<close> of \<open>CKY._dp\<close> together with the shapes the
  code reads from it: \<open>batch, N, T = terms.shape\<close> and \<open>_, NT, _, _ = rules.shape\<close>.
  A tensor is its index function; the indices are in the order of the tensor's axes
  (\<open>terms b i t\<close>, \<open>rules b x y z\<close>, \<open>roots b x\<close>).

  Modelled from the spec: the semiring (\<open>semirings.py\<close> is not part of the sources at hand).
  Its \<open>sum\<close> is \<open>+\<close> (reduction along an axis is \<open>sum_list\<close>), its \<open>times\<close> is \<open>*\<close>,
  its \<open>zero\<close> and \<open>one\<close> are \<open>0\<close> and \<open>1\<close> of a commutative semiring, \<open>dot\<close> is the sum
  of the products; \<open>convert\<close> and \<open>unconvert\<close> add and drop a leading axis of size
  \<open>semiring.size()\<close>, which is 1 for the Log and the Max semiring and is left out.
\<close>

record 'a scores =
  dim_batch :: nat
  dim_N :: nat
  dim_NT :: nat
  dim_T :: nat
  terms :: "nat \<Rightarrow> nat \<Rightarrow> nat \<Rightarrow> 'a"
  rules :: "nat \<Rightarrow> nat \<Rightarrow> nat \<Rightarrow> nat \<Rightarrow> 'a"
  roots :: "nat \<Rightarrow> nat \<Rightarrow> 'a"

definition dim_S :: "'a scores \<Rightarrow> nat" where
  "dim_S sc = dim_NT sc + dim_T sc"

section \<open>The chart engine: \<open>CKY._dp\<close>\<close>

text \<open>
  The tensors \<open>_dp\<close> allocates and fills: the two chart orientations \<open>beta[A]\<close> and
  \<open>beta[B]\<close> (indices \<open>b i w s\<close>), \<open>span\<close> (indices \<open>w b i x\<close>) and the list \<open>rule_use\<close>
  (indices \<open>w - 1\<close>, then \<open>b i x y z\<close>).

  Modelled from the spec: \<open>_make_chart\<close> (\<open>helpers.py\<close> is not part of the sources at
  hand) returns tensors of the given shape filled with the semiring's \<open>zero\<close>.
\<close>

record 'a chart =
  betaA :: "nat \<Rightarrow> nat \<Rightarrow> nat \<Rightarrow> nat \<Rightarrow> 'a"
  betaB :: "nat \<Rightarrow> nat \<Rightarrow> nat \<Rightarrow> nat \<Rightarrow> 'a"
  span :: "nat \<Rightarrow> nat \<Rightarrow> nat \<Rightarrow> nat \<Rightarrow> 'a"
  rule_use :: "nat \<Rightarrow> nat \<Rightarrow> nat \<Rightarrow> nat \<Rightarrow> nat \<Rightarrow> nat \<Rightarrow> 'a"

text \<open>
  Lines 24 to 34: the charts are created full of \<open>zero\<close>, \<open>term_use\<close> is a copy of
  \<open>terms\<close>, and it is written into the width-0 column of \<open>beta[A]\<close> and the column
  \<open>N - 1\<close> of \<open>beta[B]\<close>, at the terminal states \<open>NT:\<close>.
\<close>

definition term_use :: "'a scores \<Rightarrow> nat \<Rightarrow> nat \<Rightarrow> nat \<Rightarrow> 'a" where
  "term_use sc = terms sc"

definition dp_init :: "('a::comm_semiring_1) scores \<Rightarrow> 'a chart" where
  "dp_init sc =
     \<lparr> betaA = (\<lambda>b i w s.
          if i < dim_N sc \<and> w = 0 \<and> dim_NT sc \<le> s \<and> s < dim_S sc
          then term_use sc b i (s - dim_NT sc) else 0),
       betaB = (\<lambda>b i w s.
          if i < dim_N sc \<and> w = dim_N sc - 1 \<and> dim_NT sc \<le> s \<and> s < dim_S sc
          then term_use sc b i (s - dim_NT sc) else 0),
       span = (\<lambda>w b i x. 0),
       rule_use = (\<lambda>w b i x y z. 0) \<rparr>"

text \<open>
  Lines 42 to 60: the four blocks of \<open>rule_use[w - 1]\<close>, entry \<open>(b, i, x, y, z)\<close> with
  \<open>i < N - w\<close>. The slices \<open>Y\<close> and \<open>Z\<close> are read at the chart positions written out here:
  \<open>Y[i, k] = beta[A][i, k]\<close> and \<open>Z[i, k] = beta[B][w + i, N - w + k]\<close> for the
  nonterminal pairs, summed over \<open>k < w\<close> (\<open>dim=3\<close>). The block of two terminals is only
  written when \<open>w == 1\<close> and keeps the \<open>zero\<close> of its creation otherwise.
\<close>

definition rule_use_w ::
  "('a::comm_semiring_1) scores \<Rightarrow> 'a chart \<Rightarrow> nat \<Rightarrow> nat \<Rightarrow> nat \<Rightarrow> nat \<Rightarrow> nat \<Rightarrow> nat \<Rightarrow> 'a" where
  "rule_use_w sc st w b i x y z =
     (let n = dim_N sc; nt = dim_NT sc in
      if y < nt \<and> z < nt then
        sum_list (map (\<lambda>k. betaA st b i k y * betaB st b (w + i) (n - w + k) z) [0..<w])
          * rules sc b x y z
      else if y < nt then
        betaA st b i (w - 1) y * betaB st b (w + i) (n - 1) z * rules sc b x y z
      else if z < nt then
        betaA st b i 0 y * betaB st b (w + i) (n - w) z * rules sc b x y z
      else if w = 1 then
        betaA st b i (w - 1) y * betaB st b (w + i) (n - w) z * rules sc b x y z
      else 0)"

text \<open>
  The tensor \<open>rule_use[w - 1]\<close> after the writes of one iteration: the four blocks inside
  its shape \<open>(batch, N - w, NT, S, S)\<close>.
\<close>

definition rule_use_block ::
  "('a::comm_semiring_1) scores \<Rightarrow> 'a chart \<Rightarrow> nat \<Rightarrow> nat \<Rightarrow> nat \<Rightarrow> nat \<Rightarrow> nat \<Rightarrow> nat \<Rightarrow> 'a" where
  "rule_use_block sc st w =
     (\<lambda>b i x y z.
        if i < dim_N sc - w \<and> x < dim_NT sc \<and> y < dim_S sc \<and> z < dim_S sc
        then rule_use_w sc st w b i x y z else 0)"

text \<open>
  Lines 62 and 63: \<open>rulesmid\<close> flattens the last two axes of \<open>rule_use[w - 1]\<close>
  (row-major) and \<open>span[w]\<close> sums over them.
\<close>

definition span_from ::
  "('a::comm_semiring_1) scores \<Rightarrow> (nat \<Rightarrow> nat \<Rightarrow> nat \<Rightarrow> nat \<Rightarrow> nat \<Rightarrow> 'a) \<Rightarrow> nat \<Rightarrow> nat \<Rightarrow> nat \<Rightarrow> 'a" where
  "span_from sc ru b i x =
     sum_list (concat (map (\<lambda>y. map (\<lambda>z. ru b i x y z) [0..<dim_S sc]) [0..<dim_S sc]))"

definition span_w ::
  "('a::comm_semiring_1) scores \<Rightarrow> 'a chart \<Rightarrow> nat \<Rightarrow> nat \<Rightarrow> nat \<Rightarrow> nat \<Rightarrow> 'a" where
  "span_w sc st w b i x = span_from sc (rule_use_w sc st w) b i x"

text \<open>
  Lines 62 to 65, everything of one iteration that comes after \<open>rule_use[w - 1]\<close> is
  filled: \<open>span[w]\<close> is computed from \<open>rule_use[w - 1]\<close>, written into
  \<open>beta[A][:, : N - w, w, :NT]\<close>, and that slice of \<open>beta[A]\<close> is copied into
  \<open>beta[B][:, w:N, N - w - 1, :NT]\<close>.
\<close>

definition dp_write ::
  "('a::comm_semiring_1) scores \<Rightarrow> nat \<Rightarrow> (nat \<Rightarrow> nat \<Rightarrow> nat \<Rightarrow> nat \<Rightarrow> nat \<Rightarrow> 'a) \<Rightarrow> 'a chart \<Rightarrow> 'a chart" where
  "dp_write sc w ru st =
     (let n = dim_N sc; nt = dim_NT sc;
          sp = (\<lambda>b i x. if i < n - w \<and> x < nt then span_from sc ru b i x else 0);
          bA = (\<lambda>b i w' s. if i < n - w \<and> w' = w \<and> s < nt then sp b i s
                            else betaA st b i w' s);
          bB = (\<lambda>b j w' s. if w \<le> j \<and> j < n \<and> w' = n - w - 1 \<and> s < nt then bA b (j - w) w s
                            else betaB st b j w' s)
      in \<lparr> betaA = bA, betaB = bB,
           span = (span st)(w := sp),
           rule_use = (rule_use st)(w - 1 := ru) \<rparr>)"

text \<open>
  One iteration of the loop over \<open>w\<close> (lines 41 to 65).
\<close>

definition dp_step :: "('a::comm_semiring_1) scores \<Rightarrow> nat \<Rightarrow> 'a chart \<Rightarrow> 'a chart" where
  "dp_step sc w st = dp_write sc w (rule_use_block sc st w) st"

definition dp_loop :: "('a::comm_semiring_1) scores \<Rightarrow> nat \<Rightarrow> 'a chart" where
  "dp_loop sc k = fold (dp_step sc) [1..<Suc k] (dp_init sc)"

text \<open>
  Lines 67 to 69: \<open>top\<close> stacks, for every \<open>(i, l)\<close> of \<open>enumerate(lengths)\<close>, the row
  \<open>beta[A][:, i, 0, l - 1, :NT]\<close>: \<open>i\<close> indexes the batch axis and \<open>l - 1\<close> the width
  axis, with Python's rule for negative indices. \<open>torch.stack\<close> refuses an empty list, and
  the assignment \<open>top[:] = ...\<close> needs the stacked rows to have the shape of \<open>top\<close> or to
  broadcast to it (one row).
\<close>

definition top_rows ::
  "('a::comm_semiring_1) scores \<Rightarrow> 'a chart \<Rightarrow> int list \<Rightarrow> error + (nat \<Rightarrow> 'a) list" where
  "top_rows sc st ls =
     collect (map (\<lambda>(i, l).
        if dim_batch sc \<le> i then Inl IndexError
        else (case py_index (dim_N sc) (l - 1) of
                Inl e \<Rightarrow> Inl e
              | Inr w \<Rightarrow> Inr (\<lambda>x. betaA st i 0 w x))) (zip [0..<length ls] ls))"

definition top_assign ::
  "'a scores \<Rightarrow> (nat \<Rightarrow> 'a) list \<Rightarrow> error + (nat \<Rightarrow> nat \<Rightarrow> 'a)" where
  "top_assign sc rows =
     (if rows = [] then Inl RuntimeError
      else if length rows = dim_batch sc then Inr (\<lambda>b. rows ! b)
      else if length rows = 1 then Inr (\<lambda>b. rows ! 0)
      else Inl RuntimeError)"

text \<open>
  Lines 67 to 71: \<open>top\<close> is filled from the chart, the totals are \<open>semiring.dot(top, roots)\<close>
  (the sum over the nonterminals of \<open>times(top, roots)\<close>), and the triple the code
  returns is built: the totals \<open>log_Z\<close> (one per batch element), the retained tensor \<open>top\<close>
  (\<open>term_use\<close> and \<open>rule_use\<close> are read off the state) and the chart \<open>beta\<close> (here the whole
  final state).
\<close>

definition dot_top :: "('a::comm_semiring_1) scores \<Rightarrow> (nat \<Rightarrow> nat \<Rightarrow> 'a) \<Rightarrow> 'a list" where
  "dot_top sc tp =
     map (\<lambda>b. sum_list (map (\<lambda>x. tp b x * roots sc b x) [0..<dim_NT sc])) [0..<dim_batch sc]"

definition dp_finish ::
  "('a::comm_semiring_1) scores \<Rightarrow> 'a chart \<Rightarrow> int list \<Rightarrow>
     error + ('a list \<times> (nat \<Rightarrow> nat \<Rightarrow> 'a) \<times> 'a chart)" where
  "dp_finish sc st ls =
     (case top_rows sc st ls of
        Inl e \<Rightarrow> Inl e
      | Inr rows \<Rightarrow>
         (case top_assign sc rows of
            Inl e \<Rightarrow> Inl e
          | Inr tp \<Rightarrow> Inr (dot_top sc tp, tp, st)))"

text \<open>
  \<open>CKY._dp\<close>: \<open>lengths\<close> is \<open>None\<close> or a list of integers. With \<open>N = 0\<close> the write into
  column 0 of the chart is out of range.
\<close>

definition cky_dp ::
  "('a::comm_semiring_1) scores \<Rightarrow> int list option \<Rightarrow>
     error + ('a list \<times> (nat \<Rightarrow> nat \<Rightarrow> 'a) \<times> 'a chart)" where
  "cky_dp sc lengths =
     (let ls = (case lengths of
                  None \<Rightarrow> replicate (dim_batch sc) (int (dim_N sc))
                | Some ls \<Rightarrow> ls)
      in if dim_N sc = 0 then Inl IndexError
         else dp_finish sc (dp_loop sc (dim_N sc - 1)) ls)"

definition log_Z :: "('a::comm_semiring_1) scores \<Rightarrow> int list option \<Rightarrow> error + 'a list" where
  "log_Z sc lengths = (case cky_dp sc lengths of Inl e \<Rightarrow> Inl e | Inr (v, _) \<Rightarrow> Inr v)"

section \<open>The span parser: \<open>CKY_CRF._dp\<close>\<close>

text \<open>
  The potentials \<open>scores[b, i, j, x]\<close> of \<open>CKY_CRF\<close> with the shapes read by
  \<open>batch, N, _, NT = scores.shape\<close>; the two span axes have the same size.
\<close>

record 'a crf_scores =
  crf_batch :: nat
  crf_N :: nat
  crf_NT :: nat
  crf_pot :: "nat \<Rightarrow> nat \<Rightarrow> nat \<Rightarrow> nat \<Rightarrow> 'a"

record 'a crf_chart =
  crf_betaA :: "nat \<Rightarrow> nat \<Rightarrow> nat \<Rightarrow> 'a"
  crf_betaB :: "nat \<Rightarrow> nat \<Rightarrow> nat \<Rightarrow> 'a"

text \<open>Line 18: \<open>semiring.sum(scores)\<close> reduces the last axis, the labels.\<close>

definition reduced_scores :: "('a::comm_semiring_1) crf_scores \<Rightarrow> nat \<Rightarrow> nat \<Rightarrow> nat \<Rightarrow> 'a" where
  "reduced_scores sc b i j = sum_list (map (\<lambda>x. crf_pot sc b i j x) [0..<crf_NT sc])"

text \<open>Lines 19 to 22: the diagonal of \<open>reduced_scores\<close> seeds both orientations.\<close>

definition crf_init :: "('a::comm_semiring_1) crf_scores \<Rightarrow> 'a crf_chart" where
  "crf_init sc =
     \<lparr> crf_betaA = (\<lambda>b i w. if i < crf_N sc \<and> w = 0 then reduced_scores sc b i i else 0),
       crf_betaB = (\<lambda>b i w. if i < crf_N sc \<and> w = crf_N sc - 1 then reduced_scores sc b i i
                              else 0) \<rparr>"

text \<open>
  Lines 26 to 30: \<open>semiring.dot(Y, Z)\<close> contracts the split axis, \<open>score\<close> is the
  \<open>w\<close>-th diagonal of \<open>reduced_scores\<close>.
\<close>

definition crf_span ::
  "('a::comm_semiring_1) crf_scores \<Rightarrow> 'a crf_chart \<Rightarrow> nat \<Rightarrow> nat \<Rightarrow> nat \<Rightarrow> 'a" where
  "crf_span sc st w b i =
     sum_list (map (\<lambda>k. crf_betaA st b i k * crf_betaB st b (w + i) (crf_N sc - w + k)) [0..<w])
       * reduced_scores sc b i (i + w)"

definition crf_step :: "('a::comm_semiring_1) crf_scores \<Rightarrow> nat \<Rightarrow> 'a crf_chart \<Rightarrow> 'a crf_chart" where
  "crf_step sc w st =
     (let n = crf_N sc;
          bA = (\<lambda>b i w'. if i < n - w \<and> w' = w then crf_span sc st w b i
                           else crf_betaA st b i w');
          bB = (\<lambda>b j w'. if w \<le> j \<and> j < n \<and> w' = n - w - 1 then bA b (j - w) w
                           else crf_betaB st b j w')
      in \<lparr> crf_betaA = bA, crf_betaB = bB \<rparr>)"

definition crf_loop :: "('a::comm_semiring_1) crf_scores \<Rightarrow> nat \<Rightarrow> 'a crf_chart" where
  "crf_loop sc k = fold (crf_step sc) [1..<Suc k] (crf_init sc)"

text \<open>
  Lines 32 and 33: \<open>final[:, torch.arange(batch), lengths - 1]\<close> indexes with two index
  tensors, which are broadcast against each other (equal sizes, or one of size 1); each
  entry of \<open>lengths - 1\<close> indexes the width axis with Python's rule for negative indices.
\<close>

definition crf_read ::
  "('a::comm_semiring_1) crf_scores \<Rightarrow> 'a crf_chart \<Rightarrow> int list \<Rightarrow> error + 'a list" where
  "crf_read sc st ls =
     (let nb = crf_batch sc; nl = length ls in
      if nb = nl \<or> nl = 1 \<or> nb = 1 then
        collect (map (\<lambda>k.
           case py_index (crf_N sc) ((if nl = 1 then ls ! 0 else ls ! k) - 1) of
             Inl e \<Rightarrow> Inl e
           | Inr w \<Rightarrow> Inr (crf_betaA st (if nb = 1 then 0 else k) 0 w))
           [0..<(if nb = nl then nb else if nl = 1 then nb else nl)])
      else Inl IndexError)"

definition cky_crf_dp ::
  "('a::comm_semiring_1) crf_scores \<Rightarrow> int list option \<Rightarrow> error + ('a list \<times> 'a crf_chart)" where
  "cky_crf_dp sc lengths =
     (let ls = (case lengths of
                  None \<Rightarrow> replicate (crf_batch sc) (int (crf_N sc))
                | Some ls \<Rightarrow> ls)
      in if crf_N sc = 0 then Inl IndexError
         else
           let st = crf_loop sc (crf_N sc - 1) in
           (case crf_read sc st ls of
              Inl e \<Rightarrow> Inl e
            | Inr v \<Rightarrow> Inr (v, st)))"

section \<open>The Log and the Max semiring\<close>

text \<open>
  Modelled from the spec: the Log semiring (\<open>sum\<close> is log-sum-exp, \<open>times\<close> is addition)
  and the Max semiring (\<open>sum\<close> is the maximum, \<open>times\<close> is addition), over the real
  numbers in place of floating-point numbers. \<open>LogZero\<close> and \<open>MaxZero\<close> are the
  \<open>zero\<close> of each (minus infinity), \<open>LogVal 0\<close> and \<open>MaxVal 0\<close> the \<open>one\<close>.
\<close>

datatype logsr = LogZero | LogVal real

instantiation logsr :: comm_semiring_1
begin

definition zero_logsr :: logsr where "zero_logsr = LogZero"
definition one_logsr :: logsr where "one_logsr = LogVal 0"

fun plus_logsr :: "logsr \<Rightarrow> logsr \<Rightarrow> logsr" where
  "plus_logsr LogZero b = b"
| "plus_logsr a LogZero = a"
| "plus_logsr (LogVal a) (LogVal b) = LogVal (ln (exp a + exp b))"

fun times_logsr :: "logsr \<Rightarrow> logsr \<Rightarrow> logsr" where
  "times_logsr LogZero b = LogZero"
| "times_logsr a LogZero = LogZero"
| "times_logsr (LogVal a) (LogVal b) = LogVal (a + b)"

instance
proof
  fix a b c :: logsr
  have pos: "\<And>x y :: real. 0 < exp x + exp y" by (simp add: add_pos_pos)
  show "a + b + c = a + (b + c)"
    by (cases a; cases b; cases c) (simp_all add: pos add.assoc)
  show "a + b = b + a"
    by (cases a; cases b) (simp_all add: add.commute)
  show "0 + a = a" by (simp add: zero_logsr_def)
  show "a * b * c = a * (b * c)"
    by (cases a; cases b; cases c) (simp_all add: add.assoc)
  show "a * b = b * a"
    by (cases a; cases b) (simp_all add: add.commute)
  show "1 * a = a" by (cases a) (simp_all add: one_logsr_def)
  show "0 * a = 0" by (simp add: zero_logsr_def)
  show "a * 0 = 0" by (cases a) (simp_all add: zero_logsr_def)
  show "(a + b) * c = a * c + b * c"
  proof (cases a; cases b; cases c)
    fix x y z assume "a = LogVal x" "b = LogVal y" "c = LogVal z"
    moreover have "ln (exp x + exp y) + z = ln (exp (x + z) + exp (y + z))"
    proof -
      have "exp (x + z) + exp (y + z) = (exp x + exp y) * exp z"
        by (simp add: exp_add distrib_right)
      moreover have "exp x + exp y \<noteq> 0" using pos[of x y] by simp
      ultimately show ?thesis by (simp add: ln_mult)
    qed
    ultimately show ?thesis by simp
  qed simp_all
  show "(0::logsr) \<noteq> 1" by (simp add: zero_logsr_def one_logsr_def)
qed

end

datatype maxsr = MaxZero | MaxVal real

instantiation maxsr :: comm_semiring_1
begin

definition zero_maxsr :: maxsr where "zero_maxsr = MaxZero"
definition one_maxsr :: maxsr where "one_maxsr = MaxVal 0"

fun plus_maxsr :: "maxsr \<Rightarrow> maxsr \<Rightarrow> maxsr" where
  "plus_maxsr MaxZero b = b"
| "plus_maxsr a MaxZero = a"
| "plus_maxsr (MaxVal a) (MaxVal b) = MaxVal (max a b)"

fun times_maxsr :: "maxsr \<Rightarrow> maxsr \<Rightarrow> maxsr" where
  "times_maxsr MaxZero b = MaxZero"
| "times_maxsr a MaxZero = MaxZero"
| "times_maxsr (MaxVal a) (MaxVal b) = MaxVal (a + b)"

instance
proof
  fix a b c :: maxsr
  show "a + b + c = a + (b + c)"
    by (cases a; cases b; cases c) (simp_all add: max.assoc)
  show "a + b = b + a"
    by (cases a; cases b) (simp_all add: max.commute)
  show "0 + a = a" by (simp add: zero_maxsr_def)
  show "a * b * c = a * (b * c)"
    by (cases a; cases b; cases c) (simp_all add: add.assoc)
  show "a * b = b * a"
    by (cases a; cases b) (simp_all add: add.commute)
  show "1 * a = a" by (cases a) (simp_all add: one_maxsr_def)
  show "0 * a = 0" by (simp add: zero_maxsr_def)
  show "a * 0 = 0" by (cases a) (simp_all add: zero_maxsr_def)
  show "(a + b) * c = a * c + b * c"
    by (cases a; cases b; cases c) (simp_all add: max_add_distrib_left)
  show "(0::maxsr) \<noteq> 1" by (simp add: zero_maxsr_def one_maxsr_def)
qed

end

text \<open>
  \<open>semiring.convert\<close> for the two semirings: every entry of the real potentials becomes
  a finite value of the semiring.
\<close>

definition log_convert :: "real scores \<Rightarrow> logsr scores" where
  "log_convert sc =
     \<lparr> dim_batch = dim_batch sc, dim_N = dim_N sc, dim_NT = dim_NT sc, dim_T = dim_T sc,
       terms = (\<lambda>b i t. LogVal (terms sc b i t)),
       rules = (\<lambda>b x y z. LogVal (rules sc b x y z)),
       roots = (\<lambda>b x. LogVal (roots sc b x)) \<rparr>"

definition max_convert :: "real scores \<Rightarrow> maxsr scores" where
  "max_convert sc =
     \<lparr> dim_batch = dim_batch sc, dim_N = dim_N sc, dim_NT = dim_NT sc, dim_T = dim_T sc,
       terms = (\<lambda>b i t. MaxVal (terms sc b i t)),
       rules = (\<lambda>b x y z. MaxVal (rules sc b x y z)),
       roots = (\<lambda>b x. MaxVal (roots sc b x)) \<rparr>"

text \<open>
  The concrete scenario of the specification: one batch element, one nonterminal, one
  terminal symbol, and every potential equal to 1.0, for a sentence of \<open>n\<close> words.
\<close>

definition ones_scores :: "nat \<Rightarrow> real scores" where
  "ones_scores n =
     \<lparr> dim_batch = 1, dim_N = n, dim_NT = 1, dim_T = 1,
       terms = (\<lambda>b i t. 1), rules = (\<lambda>b x y z. 1), roots = (\<lambda>b x. 1) \<rparr>"

section \<open>Brute-force enumeration: \<open>CKY.enumerate\<close>\<close>

text \<open>
  The inner generator \<open>enumerate(x, start, end)\<close> of lines 242 to 256. What it yields is
  a list of events: a derivation \<open>(score, structure)\<close>, or the exception raised at that
  point (\<open>terms[:, start, x - NT]\<close> indexes the axis of size \<open>T\<close> with \<open>x - NT\<close>, which
  is negative for a nonterminal \<open>x\<close>). The consumer stops at the first exception. The
  score is a tensor over the batch; the structure is the list of tuples the code builds.
\<close>

datatype node = Leaf nat int | Rule nat nat nat nat

type_synonym 'a derivation = "(nat \<Rightarrow> 'a) \<times> node list"

function enumerate_gen ::
  "('a::comm_semiring_1) scores \<Rightarrow> nat \<Rightarrow> nat \<Rightarrow> nat \<Rightarrow> (error + 'a derivation) list" where
  "enumerate_gen sc x start end' =
     (if start + 1 = end' then
        [case py_index (dim_T sc) (int x - int (dim_NT sc)) of
           Inl e \<Rightarrow> Inl e
         | Inr t \<Rightarrow> Inr (\<lambda>b. terms sc b start t, [Leaf start (int x - int (dim_NT sc))])]
      else
        concat (map (\<lambda>w.
          concat (map (\<lambda>y.
            concat (map (\<lambda>z.
              concat (map (\<lambda>r1.
                case r1 of
                  Inl e \<Rightarrow> [Inl e]
                | Inr (m1, y1) \<Rightarrow>
                    map (\<lambda>r2.
                      case r2 of
                        Inl e \<Rightarrow> Inl e
                      | Inr (m2, z1) \<Rightarrow>
                          Inr (\<lambda>b. (m1 b * m2 b) * rules sc b x y z,
                               [Rule x start w end'] @ y1 @ z1))
                      (enumerate_gen sc z w end'))
                (enumerate_gen sc y start w)))
              (if w \<noteq> end' - 1 then [0..<dim_NT sc]
               else [dim_NT sc..<dim_NT sc + dim_T sc])))
            (if w \<noteq> start + 1 then [0..<dim_NT sc]
             else [dim_NT sc..<dim_NT sc + dim_T sc])))
          [start + 1..<end']))"
  by pat_completeness auto
termination
  by (relation "measure (\<lambda>(sc, x, s, e). e - s)") auto

declare enumerate_gen.simps [simp del]

text \<open>
  Lines 258 to 261: the scores of all derivations from every root nonterminal, each
  combined with the root score, are stacked and summed; \<open>torch.stack\<close> refuses an empty
  list. \<open>enumerate_scores\<close> is the list \<open>ls\<close>; \<open>cky_enumerate\<close> is the first
  component of the returned pair.
\<close>

definition enumerate_scores :: "('a::comm_semiring_1) scores \<Rightarrow> error + (nat \<Rightarrow> 'a) list" where
  "enumerate_scores sc =
     collect (concat (map (\<lambda>nt.
              map (\<lambda>r. case r of
                          Inl e \<Rightarrow> Inl e
                        | Inr (s, _) \<Rightarrow> Inr (\<lambda>b. s b * roots sc b nt))
                  (enumerate_gen sc nt 0 (dim_N sc)))
              [0..<dim_NT sc]))"

definition cky_enumerate :: "('a::comm_semiring_1) scores \<Rightarrow> error + 'a list" where
  "cky_enumerate sc =
     (case enumerate_scores sc of
        Inl e \<Rightarrow> Inl e
      | Inr ls \<Rightarrow>
          if ls = [] then Inl RuntimeError
          else Inr (map (\<lambda>b. sum_list (map (\<lambda>s. s b) ls)) [0..<dim_batch sc]))"

section \<open>Marginals: \<open>CKY.marginals\<close> under the Log semiring\<close>

text \<open>
  Lines 90 to 113, the branch taken with \<open>_autograd=True\<close> (the default):
  \<open>torch.autograd.grad(v.sum(dim=0), tuple(rule_use) + (top, term_use))\<close> is the gradient
  of the batch-summed total with respect to the tensors \<open>_dp\<close> retained. The gradient with
  respect to a retained tensor differentiates what \<open>_dp\<close> computes from that tensor on:
  from \<open>top\<close>, the totals \<open>semiring.dot(top, roots)\<close>; from \<open>rule_use[w - 1]\<close>, the rest of
  iteration \<open>w\<close>, the iterations after it and the last lines; from \<open>term_use\<close>, everything,
  \<open>terms\<close> being read through \<open>term_use\<close> only.
\<close>

definition resume_from_top :: "('a::comm_semiring_1) scores \<Rightarrow> (nat \<Rightarrow> nat \<Rightarrow> 'a) \<Rightarrow> error + 'a list" where
  "resume_from_top sc tp = Inr (dot_top sc tp)"

definition resume_from_rule_use ::
  "('a::comm_semiring_1) scores \<Rightarrow> int list option \<Rightarrow> nat \<Rightarrow>
     (nat \<Rightarrow> nat \<Rightarrow> nat \<Rightarrow> nat \<Rightarrow> nat \<Rightarrow> 'a) \<Rightarrow> error + 'a list" where
  "resume_from_rule_use sc lengths w ru =
     (let ls = (case lengths of
                  None \<Rightarrow> replicate (dim_batch sc) (int (dim_N sc))
                | Some ls \<Rightarrow> ls)
      in case dp_finish sc (fold (dp_step sc) [Suc w..<dim_N sc]
                              (dp_write sc w ru (dp_loop sc (w - 1)))) ls of
           Inl e \<Rightarrow> Inl e
         | Inr (v, _) \<Rightarrow> Inr v)"

definition resume_from_term_use ::
  "('a::comm_semiring_1) scores \<Rightarrow> int list option \<Rightarrow> (nat \<Rightarrow> nat \<Rightarrow> nat \<Rightarrow> 'a) \<Rightarrow> error + 'a list" where
  "resume_from_term_use sc lengths tu = log_Z (sc\<lparr>terms := tu\<rparr>) lengths"

text \<open>One entry of a tensor replaced, for tensors of two, three and five axes.\<close>

definition set_entry2 :: "(nat \<Rightarrow> nat \<Rightarrow> 'a) \<Rightarrow> nat \<Rightarrow> nat \<Rightarrow> 'a \<Rightarrow> nat \<Rightarrow> nat \<Rightarrow> 'a" where
  "set_entry2 f b x v = (\<lambda>b' x'. if b' = b \<and> x' = x then v else f b' x')"

definition set_entry3 ::
  "(nat \<Rightarrow> nat \<Rightarrow> nat \<Rightarrow> 'a) \<Rightarrow> nat \<Rightarrow> nat \<Rightarrow> nat \<Rightarrow> 'a \<Rightarrow> nat \<Rightarrow> nat \<Rightarrow> nat \<Rightarrow> 'a" where
  "set_entry3 f b i t v = (\<lambda>b' i' t'. if b' = b \<and> i' = i \<and> t' = t then v else f b' i' t')"

definition set_entry5 ::
  "(nat \<Rightarrow> nat \<Rightarrow> nat \<Rightarrow> nat \<Rightarrow> nat \<Rightarrow> 'a) \<Rightarrow> nat \<Rightarrow> nat \<Rightarrow> nat \<Rightarrow> nat \<Rightarrow> nat \<Rightarrow> 'a \<Rightarrow>
     nat \<Rightarrow> nat \<Rightarrow> nat \<Rightarrow> nat \<Rightarrow> nat \<Rightarrow> 'a" where
  "set_entry5 f b i x y z v =
     (\<lambda>b' i' x' y' z'. if b' = b \<and> i' = i \<and> x' = x \<and> y' = y \<and> z' = z then v
                        else f b' i' x' y' z')"

text \<open>
  \<open>v.sum(dim=0)\<close> for the totals of the Log semiring, \<open>unconvert\<close>ed: a real number unless
  a total is the \<open>zero\<close> of the semiring (minus infinity).
\<close>

fun unconvert_sum :: "logsr list \<Rightarrow> real option" where
  "unconvert_sum [] = Some 0"
| "unconvert_sum (LogZero # vs) = None"
| "unconvert_sum (LogVal r # vs) = map_option (\<lambda>s. r + s) (unconvert_sum vs)"

text \<open>
  \<open>is_grad F r d\<close>: the entry of the gradient is \<open>d\<close>, where \<open>F\<close> gives the totals as
  recomputed from the value of one entry of a retained tensor and \<open>r\<close> is the value that
  entry has: around \<open>r\<close> the summed total is a real function with derivative \<open>d\<close> at \<open>r\<close>.
\<close>

definition is_grad :: "(logsr \<Rightarrow> error + logsr list) \<Rightarrow> real \<Rightarrow> real \<Rightarrow> bool" where
  "is_grad F r d \<longleftrightarrow>
     (\<exists>g. eventually (\<lambda>h. \<exists>v. F (LogVal h) = Inr v \<and> unconvert_sum v = Some (g h)) (nhds r)
          \<and> (g has_real_derivative d) (at r))"

text \<open>
  The three tensors \<open>marginals\<close> returns, entry by entry: \<open>term_marg[b, i, t]\<close>,
  \<open>rules[b, w, i, x, y, z]\<close> (line 103: \<open>rules[:, w, : N - w - 1]\<close> is the gradient of
  \<open>rule_use[w]\<close>, the tensor of the iteration of width \<open>w + 1\<close>) and \<open>root_marg[b, x]\<close>;
  \<open>unconvert\<close> is the identity for the Log semiring.
\<close>

definition term_marginal ::
  "logsr scores \<Rightarrow> int list option \<Rightarrow> nat \<Rightarrow> nat \<Rightarrow> nat \<Rightarrow> real \<Rightarrow> bool" where
  "term_marginal sc lengths b i t d \<longleftrightarrow>
     b < dim_batch sc \<and> i < dim_N sc \<and> t < dim_T sc \<and>
     (\<exists>r. term_use sc b i t = LogVal r \<and>
          is_grad (\<lambda>u. resume_from_term_use sc lengths (set_entry3 (term_use sc) b i t u)) r d)"

definition rule_marginal ::
  "logsr scores \<Rightarrow> int list option \<Rightarrow> nat \<Rightarrow> nat \<Rightarrow> nat \<Rightarrow> nat \<Rightarrow> nat \<Rightarrow> nat \<Rightarrow> real \<Rightarrow> bool" where
  "rule_marginal sc lengths b w i x y z d \<longleftrightarrow>
     b < dim_batch sc \<and> w + 1 < dim_N sc \<and> i < dim_N sc - w - 1 \<and>
     x < dim_NT sc \<and> y < dim_S sc \<and> z < dim_S sc \<and>
     (\<exists>r. rule_use_block sc (dp_loop sc w) (w + 1) b i x y z = LogVal r \<and>
          is_grad (\<lambda>u. resume_from_rule_use sc lengths (w + 1)
                         (set_entry5 (rule_use_block sc (dp_loop sc w) (w + 1)) b i x y z u)) r d)"

definition root_marginal ::
  "logsr scores \<Rightarrow> int list option \<Rightarrow> nat \<Rightarrow> nat \<Rightarrow> real \<Rightarrow> bool" where
  "root_marginal sc lengths b x d \<longleftrightarrow>
     b < dim_batch sc \<and> x < dim_NT sc \<and>
     (\<exists>v tp st r. cky_dp sc lengths = Inr (v, tp, st) \<and> tp b x = LogVal r \<and>
          is_grad (\<lambda>u. resume_from_top sc (set_entry2 tp b x u)) r d)"

section \<open>Brute-force enumeration: \<open>CKY_CRF.enumerate\<close>\<close>

text \<open>
  The inner generator \<open>enumerate(x, start, end)\<close> of lines 40 to 54 of \<open>cky_crf.py\<close>. A
  span of one word yields \<open>scores[:, start, start, x]\<close>; a wider span yields, for every
  split point \<open>w\<close>, every pair of labels \<open>y\<close>, \<open>z\<close> in \<open>range(NT)\<close> and every pair of
  derivations of the two parts, \<open>times(m1, m2, scores[:, start, end - 1, x])\<close>.
  \<open>crf_index\<close> is the read of \<open>scores\<close>, which raises outside the shape.
\<close>

datatype crf_node = SpanLeaf nat nat | SpanRule nat nat nat nat

definition crf_index :: "'a crf_scores \<Rightarrow> nat \<Rightarrow> nat \<Rightarrow> nat \<Rightarrow> error + (nat \<Rightarrow> 'a)" where
  "crf_index sc i j x =
     (if i < crf_N sc \<and> j < crf_N sc \<and> x < crf_NT sc then Inr (\<lambda>b. crf_pot sc b i j x)
      else Inl IndexError)"

function crf_enumerate_gen ::
  "('a::comm_semiring_1) crf_scores \<Rightarrow> nat \<Rightarrow> nat \<Rightarrow> nat \<Rightarrow>
     (error + ((nat \<Rightarrow> 'a) \<times> crf_node list)) list" where
  "crf_enumerate_gen sc x start end' =
     (if start + 1 = end' then
        [case crf_index sc start start x of
           Inl e \<Rightarrow> Inl e
         | Inr s \<Rightarrow> Inr (s, [SpanLeaf start x])]
      else
        concat (map (\<lambda>w.
          concat (map (\<lambda>y.
            concat (map (\<lambda>z.
              concat (map (\<lambda>r1.
                case r1 of
                  Inl e \<Rightarrow> [Inl e]
                | Inr (m1, y1) \<Rightarrow>
                    map (\<lambda>r2.
                      case r2 of
                        Inl e \<Rightarrow> Inl e
                      | Inr (m2, z1) \<Rightarrow>
                          (case crf_index sc start (end' - 1) x of
                             Inl e \<Rightarrow> Inl e
                           | Inr s \<Rightarrow>
                               Inr (\<lambda>b. (m1 b * m2 b) * s b,
                                    [SpanRule x start w end'] @ y1 @ z1)))
                      (crf_enumerate_gen sc z w end'))
                (crf_enumerate_gen sc y start w)))
              [0..<crf_NT sc]))
            [0..<crf_NT sc]))
          [start + 1..<end']))"
  by pat_completeness auto
termination
  by (relation "measure (\<lambda>(sc, x, s, e). e - s)") auto

declare crf_enumerate_gen.simps [simp del]

text \<open>
  Lines 56 to 60: the scores of all derivations with every label \<open>nt\<close> at the root are
  stacked and summed; \<open>torch.stack\<close> refuses an empty list. \<open>crf_enumerate_scores\<close> is
  the list \<open>ls\<close>; \<open>cky_crf_enumerate\<close> is the first component of the returned pair.
\<close>

definition crf_enumerate_scores ::
  "('a::comm_semiring_1) crf_scores \<Rightarrow> error + (nat \<Rightarrow> 'a) list" where
  "crf_enumerate_scores sc =
     collect (concat (map (\<lambda>nt.
              map (\<lambda>r. case r of
                          Inl e \<Rightarrow> Inl e
                        | Inr (s, _) \<Rightarrow> Inr s)
                  (crf_enumerate_gen sc nt 0 (crf_N sc)))
              [0..<crf_NT sc]))"

definition cky_crf_enumerate :: "('a::comm_semiring_1) crf_scores \<Rightarrow> error + 'a list" where
  "cky_crf_enumerate sc =
     (case crf_enumerate_scores sc of
        Inl e \<Rightarrow> Inl e
      | Inr ls \<Rightarrow>
          if ls = [] then Inl RuntimeError
          else Inr (map (\<lambda>b. sum_list (map (\<lambda>s. s b) ls)) [0..<crf_batch sc]))"

text \<open>\<open>semiring.convert\<close> for the potentials of \<open>CKY_CRF\<close>.\<close>

definition crf_log_convert :: "real crf_scores \<Rightarrow> logsr crf_scores" where
  "crf_log_convert sc =
     \<lparr> crf_batch = crf_batch sc, crf_N = crf_N sc, crf_NT = crf_NT sc,
       crf_pot = (\<lambda>b i j x. LogVal (crf_pot sc b i j x)) \<rparr>"

definition crf_max_convert :: "real crf_scores \<Rightarrow> maxsr crf_scores" where
  "crf_max_convert sc =
     \<lparr> crf_batch = crf_batch sc, crf_N = crf_N sc, crf_NT = crf_NT sc,
       crf_pot = (\<lambda>b i j x. MaxVal (crf_pot sc b i j x)) \<rparr>"

text \<open>A test input of \<open>CKY_CRF\<close>: one batch element, \<open>n\<close> words, two labels, every score 1.0.\<close>

definition crf_ones :: "nat \<Rightarrow> real crf_scores" where
  "crf_ones n = \<lparr> crf_batch = 1, crf_N = n, crf_NT = 2, crf_pot = (\<lambda>b i j x. 1) \<rparr>"

section \<open>The codec: \<open>CKY.to_parts\<close> and \<open>CKY.from_parts\<close>\<close>

text \<open>
  The dense labeling \<open>spans[b, i, j, x]\<close> of shape \<open>(batch, N, N, S)\<close>: a nonzero entry
  says that the words \<open>i\<close> to \<open>j\<close> (inclusive) are covered by the symbol \<open>x\<close>. The parts
  are the triple \<open>(terms, rules, roots)\<close>; \<open>terms\<close> has three axes and \<open>roots\<close> two, and
  \<open>rules\<close> carries its shape, which \<open>to_parts\<close> and \<open>from_parts\<close> read differently.
\<close>

record spans =
  sp_batch :: nat
  sp_N :: nat
  sp_S :: nat
  sp_at :: "nat \<Rightarrow> nat \<Rightarrow> nat \<Rightarrow> nat \<Rightarrow> real"

record tensor =
  t_shape :: "nat list"
  t_at :: "nat list \<Rightarrow> real"

record parts =
  pt_batch :: nat
  pt_N :: nat
  pt_T :: nat
  pt_terms :: "nat \<Rightarrow> nat \<Rightarrow> nat \<Rightarrow> real"
  pt_rules :: tensor
  pt_roots_NT :: nat
  pt_roots :: "nat \<Rightarrow> nat \<Rightarrow> real"

text \<open>
  Lines 132 to 138 of \<open>to_parts\<close>: \<open>cover = spans[b].nonzero()\<close> lists the indices
  \<open>(i, j, A)\<close> of the nonzero entries in row-major order; \<open>left[i]\<close> collects
  \<open>(A, j, j - i + 1)\<close> and \<open>right[j]\<close> collects \<open>(A, i, j - i + 1)\<close>, in that order.
\<close>

definition cover :: "spans \<Rightarrow> nat \<Rightarrow> (nat \<times> nat \<times> nat) list" where
  "cover sp b =
     concat (map (\<lambda>i. concat (map (\<lambda>j. concat (map (\<lambda>A.
        if sp_at sp b i j A \<noteq> 0 then [(i, j, A)] else [])
        [0..<sp_S sp])) [0..<sp_N sp])) [0..<sp_N sp])"

definition left_of :: "(nat \<times> nat \<times> nat) list \<Rightarrow> nat \<Rightarrow> (nat \<times> nat \<times> int) list" where
  "left_of cov i =
     concat (map (\<lambda>(i', j, A). if i' = i then [(A, j, int j - int i' + 1)] else []) cov)"

definition right_of :: "(nat \<times> nat \<times> nat) list \<Rightarrow> nat \<Rightarrow> (nat \<times> nat \<times> int) list" where
  "right_of cov j =
     concat (map (\<lambda>(i, j', A). if j' = j then [(A, i, int j' - int i + 1)] else []) cov)"

text \<open>
  Lines 141 to 146: the inner loop over \<open>right[j]\<close> stops at the first entry with
  \<open>k_2 == k + 1 and a_span + b_span == j - i + 1\<close>; the outer loop over \<open>left[i]\<close> goes
  on, so the last entry of \<open>left[i]\<close> that finds a partner decides \<open>B\<close> and \<open>C\<close>.
\<close>

fun search_right :: "nat \<Rightarrow> int \<Rightarrow> int \<Rightarrow> (nat \<times> nat \<times> int) list \<Rightarrow> nat option" where
  "search_right k a_span w [] = None"
| "search_right k a_span w ((C_p, k_2, b_span) # rs) =
     (if k_2 = k + 1 \<and> a_span + b_span = w then Some C_p
      else search_right k a_span w rs)"

definition split_search ::
  "(nat \<times> nat \<times> int) list \<Rightarrow> (nat \<times> nat \<times> int) list \<Rightarrow> int \<Rightarrow> (nat \<times> nat) option" where
  "split_search ls rs w =
     fold (\<lambda>(B_p, k, a_span) acc.
             case search_right k a_span w rs of
               None \<Rightarrow> acc
             | Some C_p \<Rightarrow> Some (B_p, C_p)) ls None"

text \<open>A loop whose body may raise: the first exception ends it.\<close>

fun fold_err :: "('x \<Rightarrow> 's \<Rightarrow> error + 's) \<Rightarrow> 'x list \<Rightarrow> 's \<Rightarrow> error + 's" where
  "fold_err f [] s = Inr s"
| "fold_err f (x # xs) s = (case f x s of Inl e \<Rightarrow> Inl e | Inr s' \<Rightarrow> fold_err f xs s')"

text \<open>
  Lines 139 to 149, one entry \<open>(i, j, A)\<close> of \<open>cover\<close>: for \<open>j > i\<close> the split must have
  been found (\<open>assert B is not None\<close>), and \<open>rules[b, A, B, C] += 1\<close> indexes the axis of
  size \<open>NT\<close> with \<open>A\<close>. The state is the tensor \<open>rules\<close> of shape \<open>(batch, NT, S, S)\<close>.
\<close>

definition entry_step ::
  "nat \<Rightarrow> nat \<Rightarrow> (nat \<times> nat \<times> nat) list \<Rightarrow> (nat \<times> nat \<times> nat) \<Rightarrow>
     (nat \<Rightarrow> nat \<Rightarrow> nat \<Rightarrow> nat \<Rightarrow> real) \<Rightarrow> error + (nat \<Rightarrow> nat \<Rightarrow> nat \<Rightarrow> nat \<Rightarrow> real)" where
  "entry_step NT b cov e r =
     (case e of (i, j, A) \<Rightarrow>
        let found = split_search (left_of cov i) (right_of cov j) (int j - int i + 1) in
        if j > i then
          (case found of
             None \<Rightarrow> Inl AssertSplit
           | Some (B, C) \<Rightarrow>
               if A < NT
               then Inr (\<lambda>b' A' B' C'. if b' = b \<and> A' = A \<and> B' = B \<and> C' = C
                                          then r b' A' B' C' + 1 else r b' A' B' C')
               else Inl IndexError)
        else Inr r)"

text \<open>
  Lines 127 to 149, one batch element: \<open>lengths[b]\<close> (\<open>lengths\<close> defaults to \<open>None\<close>,
  which cannot be indexed), the row of \<open>roots\<close>, the rows of \<open>terms\<close> (\<open>torch.arange\<close>
  refuses a negative bound) and the loop over \<open>cover\<close>. The state is
  \<open>(terms, rules, roots)\<close>.
\<close>

type_synonym parts_state =
  "(nat \<Rightarrow> nat \<Rightarrow> nat \<Rightarrow> real) \<times> (nat \<Rightarrow> nat \<Rightarrow> nat \<Rightarrow> nat \<Rightarrow> real) \<times> (nat \<Rightarrow> nat \<Rightarrow> real)"

definition batch_step ::
  "spans \<Rightarrow> nat \<Rightarrow> nat \<Rightarrow> int list option \<Rightarrow> nat \<Rightarrow> parts_state \<Rightarrow> error + parts_state" where
  "batch_step sp NT T lengths b st =
     (case st of (tm, ru, ro) \<Rightarrow>
        case lengths of
          None \<Rightarrow> Inl TypeError
        | Some ls \<Rightarrow>
            if length ls \<le> b then Inl IndexError
            else
              let l = ls ! b in
              case py_index (sp_N sp) (l - 1) of
                Inl e \<Rightarrow> Inl e
              | Inr w \<Rightarrow>
                  let ro' = (\<lambda>b' x. if b' = b \<and> x < NT then sp_at sp b 0 w x else ro b' x) in
                  if l < 0 then Inl RuntimeError
                  else if int (sp_N sp) < l then Inl IndexError
                  else
                    let tm' = (\<lambda>b' i t. if b' = b \<and> int i < l \<and> t < T
                                          then sp_at sp b i i (NT + t) else tm b' i t) in
                    case fold_err (entry_step NT b (cover sp b)) (cover sp b) ru of
                      Inl e \<Rightarrow> Inl e
                    | Inr ru' \<Rightarrow> Inr (tm', ru', ro'))"

text \<open>
  \<open>CKY.to_parts(spans, extra, lengths)\<close> with \<open>extra = (NT, T)\<close>: the assertion on the
  shape, the three tensors of zeros, the loop over the batch, and the triple returned;
  \<open>rules\<close> has the four axes \<open>(batch, NT, S, S)\<close>.
\<close>

definition to_parts :: "spans \<Rightarrow> nat \<times> nat \<Rightarrow> int list option \<Rightarrow> error + parts" where
  "to_parts sp extra lengths =
     (case extra of (NT, T) \<Rightarrow>
        if sp_S sp \<noteq> NT + T then Inl AssertShape
        else
          case fold_err (batch_step sp NT T lengths) [0..<sp_batch sp]
                 (\<lambda>b i t. 0, \<lambda>b A B C. 0, \<lambda>b x. 0) of
            Inl e \<Rightarrow> Inl e
          | Inr (tm, ru, ro) \<Rightarrow>
              Inr \<lparr> pt_batch = sp_batch sp, pt_N = sp_N sp, pt_T = T, pt_terms = tm,
                    pt_rules = \<lparr> t_shape = [sp_batch sp, NT, sp_S sp, sp_S sp],
                                 t_at = (\<lambda>idx. case idx of
                                            [b, A, B, C] \<Rightarrow> ru b A B C
                                          | _ \<Rightarrow> 0) \<rparr>,
                    pt_roots_NT = NT, pt_roots = ro \<rparr>)"

text \<open>
  \<open>CKY.from_parts(chart)\<close>, lines 153 to 165. The first line unpacks \<open>rules.shape\<close> into
  six names (of which the later \<open>N\<close> and \<open>S\<close> win); any other number of axes is a
  \<open>ValueError\<close>. Then \<open>assert terms.shape[1] == N\<close>; \<open>rules\<close> is summed over its last
  two axes; the loop reads \<open>rules[:, n, ...]\<close> for every \<open>n < N\<close> and assigns it to the
  \<open>n + 1\<close>-th diagonal of \<open>spans[..., :NT]\<close>, and \<open>terms\<close> is assigned to the main diagonal
  of \<open>spans[..., NT:]\<close>: an assignment needs the value to have the shape of the target, or
  size 1 where it differs. The second component returned is \<open>(NT, S - NT)\<close>.
\<close>

definition from_parts :: "parts \<Rightarrow> error + (spans \<times> nat \<times> int)" where
  "from_parts p =
     (case t_shape (pt_rules p) of
        [batch, N0, N, NT, S0, S] \<Rightarrow>
          if pt_N p \<noteq> N then Inl AssertShape
          else if 0 < N \<and> N0 = 0 then Inl IndexError
          else if 0 < N \<and> S < NT \<and> NT \<noteq> 1 then Inl RuntimeError
          else if N0 < N then Inl IndexError
          else if \<not> ((pt_batch p = batch \<or> pt_batch p = 1) \<and> (pt_T p = S - NT \<or> pt_T p = 1))
               then Inl RuntimeError
          else Inr (\<lparr> sp_batch = batch, sp_N = N, sp_S = S,
                      sp_at = (\<lambda>b i j x.
                        if b < batch \<and> i < N \<and> j < N \<and> x < S then
                          if i = j \<and> NT \<le> x
                          then pt_terms p (if pt_batch p = 1 then 0 else b) i
                                          (if pt_T p = 1 then 0 else x - NT)
                          else if i < j \<and> x < NT
                          then sum_list (map (\<lambda>B. sum_list (map (\<lambda>C.
                                  t_at (pt_rules p) [b, j - i - 1, i, x, B, C]) [0..<S]))
                                  [0..<S0])
                          else 0
                        else 0) \<rparr>,
                    NT, int S - int NT)
      | _ \<Rightarrow> Inl ValueError)"

text \<open>
  A labeling given by the list of its nonzero entries \<open>(b, i, j, x)\<close>, each of value 1.
\<close>

definition spans_of_list :: "nat \<Rightarrow> nat \<Rightarrow> nat \<Rightarrow> (nat \<times> nat \<times> nat \<times> nat) list \<Rightarrow> spans" where
  "spans_of_list batch n s es =
     \<lparr> sp_batch = batch, sp_N = n, sp_S = s,
       sp_at = (\<lambda>b i j x. if (b, i, j, x) \<in> set es then 1 else 0) \<rparr>"

text \<open>
  What the specification calls a labeled span without a consistent split: a nonzero
  entry \<open>(i, j, A)\<close> with \<open>i < j\<close> such that for no \<open>k\<close> from \<open>i\<close> to \<open>j - 1\<close> both
  the words \<open>i\<close> to \<open>k\<close> and the words \<open>k + 1\<close> to \<open>j\<close> carry a label.
\<close>

definition has_split :: "spans \<Rightarrow> nat \<Rightarrow> nat \<Rightarrow> nat \<Rightarrow> bool" where
  "has_split sp b i j \<longleftrightarrow>
     list_ex (\<lambda>k. list_ex (\<lambda>B. sp_at sp b i k B \<noteq> 0) [0..<sp_S sp]
                \<and> list_ex (\<lambda>C. sp_at sp b (k + 1) j C \<noteq> 0) [0..<sp_S sp]) [i..<j]"

definition splitless :: "spans \<Rightarrow> nat \<Rightarrow> bool" where
  "splitless sp b \<longleftrightarrow>
     list_ex (\<lambda>i. list_ex (\<lambda>j. i < j \<and> list_ex (\<lambda>A. sp_at sp b i j A \<noteq> 0) [0..<sp_S sp]
                               \<and> \<not> has_split sp b i j) [0..<sp_N sp]) [0..<sp_N sp]"

text \<open>
  A binary tree over the symbols of the grammar: a leaf carries a terminal \<open>t\<close> (the
  symbol \<open>NT + t\<close>), an inner node a nonterminal and two subtrees. \<open>tree_spans NT t s\<close>
  lists the labeled spans \<open>(i, j, x)\<close> of the tree when its first word is at position
  \<open>s\<close>, and \<open>encodes\<close> says that the nonzero entries of batch element \<open>b\<close> are exactly
  these.
\<close>

datatype ptree = PLeaf nat | PNode nat ptree ptree

fun yield_len :: "ptree \<Rightarrow> nat" where
  "yield_len (PLeaf t) = 1"
| "yield_len (PNode A l r) = yield_len l + yield_len r"

fun tree_ok :: "nat \<Rightarrow> nat \<Rightarrow> ptree \<Rightarrow> bool" where
  "tree_ok NT T (PLeaf t) \<longleftrightarrow> t < T"
| "tree_ok NT T (PNode A l r) \<longleftrightarrow> A < NT \<and> tree_ok NT T l \<and> tree_ok NT T r"

fun tree_spans :: "nat \<Rightarrow> ptree \<Rightarrow> nat \<Rightarrow> (nat \<times> nat \<times> nat) list" where
  "tree_spans NT (PLeaf t) s = [(s, s, NT + t)]"
| "tree_spans NT (PNode A l r) s =
     (s, s + yield_len l + yield_len r - 1, A)
       # tree_spans NT l s @ tree_spans NT r (s + yield_len l)"

definition encodes :: "nat \<Rightarrow> nat \<Rightarrow> spans \<Rightarrow> nat \<Rightarrow> ptree \<Rightarrow> bool" where
  "encodes NT T sp b t \<longleftrightarrow>
     tree_ok NT T t \<and> yield_len t \<le> sp_N sp \<and>
     (\<forall>i<sp_N sp. \<forall>j<sp_N sp. \<forall>A<sp_S sp.
        (sp_at sp b i j A \<noteq> 0) = ((i, j, A) \<in> set (tree_spans NT t 0)))"


text \<open>
  A labeling is well typed when its nonzero entries lie on or above the diagonal and a
  span of more than one word carries a nonterminal.
\<close>

definition well_typed :: "nat \<Rightarrow> spans \<Rightarrow> bool" where
  "well_typed NT sp \<longleftrightarrow>
     (\<forall>b<sp_batch sp. \<forall>i<sp_N sp. \<forall>j<sp_N sp. \<forall>A<sp_S sp.
        sp_at sp b i j A \<noteq> 0 \<longrightarrow> i \<le> j \<and> (i < j \<longrightarrow> A < NT))"

text \<open>
  Four test labelings: a tree over three words, the same without its last leaf, and two
  that are not well typed.
\<close>

definition tree3 :: spans where
  "tree3 = spans_of_list 1 3 2 [(0, 0, 0, 1), (0, 1, 1, 1), (0, 2, 2, 1), (0, 1, 2, 0), (0, 0, 2, 0)]"

definition below_diagonal4 :: spans where
  "below_diagonal4 = spans_of_list 1 4 2 [(0, 0, 2, 0), (0, 3, 2, 1)]"

definition wide_terminal3 :: spans where
  "wide_terminal3 = spans_of_list 1 3 2 [(0, 0, 0, 1), (0, 1, 1, 1), (0, 0, 1, 1), (0, 1, 2, 0)]"

definition no_split3 :: spans where
  "no_split3 = spans_of_list 1 3 2 [(0, 0, 0, 1), (0, 1, 1, 1), (0, 1, 2, 0)]"

section \<open>The loop of \<open>CKY._dp\<close>, cell by cell\<close>

lemma dp_loop_0: "dp_loop sc 0 = dp_init sc"
  by (simp add: dp_loop_def)

lemma dp_loop_Suc: "dp_loop sc (Suc k) = dp_step sc (Suc k) (dp_loop sc k)"
  by (simp add: dp_loop_def)

lemma sum_list_upt_sum: "sum_list (map f [m..<n]) = sum f {m..<n}"
  by (simp add: interv_sum_list_conv_sum_set_nat)

lemma sum_list_concat_map:
  "sum_list (concat (map h xs)) = sum_list (map (\<lambda>x. sum_list (h x)) xs)"
  by (induction xs) simp_all

lemma span_from_sum:
  "span_from sc ru b i x = (\<Sum>y<dim_S sc. \<Sum>z<dim_S sc. ru b i x y z)"
  by (simp only: span_from_def sum_list_concat_map sum_list_upt_sum atLeast0LessThan)

lemma span_block:
  assumes "i < dim_N sc - w" and "x < dim_NT sc"
  shows "span_from sc (rule_use_block sc st w) b i x = span_w sc st w b i x"
  unfolding span_w_def span_from_sum
  by (intro sum.cong refl) (use assms in \<open>simp add: rule_use_block_def\<close>)

lemma betaA_step:
  "betaA (dp_step sc w st) b i w' s =
     (if i < dim_N sc - w \<and> w' = w \<and> s < dim_NT sc then span_w sc st w b i s
      else betaA st b i w' s)"
  by (auto simp: dp_step_def dp_write_def span_block Let_def)

lemma betaB_step:
  "betaB (dp_step sc w st) b j w' s =
     (if w \<le> j \<and> j < dim_N sc \<and> w' = dim_N sc - w - 1 \<and> s < dim_NT sc
      then betaA (dp_step sc w st) b (j - w) w s
      else betaB st b j w' s)"
  by (auto simp: dp_step_def dp_write_def span_block Let_def)

lemma betaA_loop_0: "betaA (dp_loop sc k) b i 0 s = betaA (dp_init sc) b i 0 s"
  by (induction k) (simp_all add: dp_loop_0 dp_loop_Suc betaA_step)

lemma betaA_loop_pos:
  "0 < w \<Longrightarrow> betaA (dp_loop sc k) b i w s =
     (if w \<le> k \<and> i < dim_N sc - w \<and> s < dim_NT sc
      then span_w sc (dp_loop sc (w - 1)) w b i s else 0)"
proof (induction k)
  case 0
  then show ?case by (simp add: dp_loop_0 dp_init_def)
next
  case (Suc k)
  show ?case
  proof (cases "w = Suc k")
    case True
    then show ?thesis using Suc by (simp add: dp_loop_Suc betaA_step)
  next
    case False
    then show ?thesis using Suc by (simp add: dp_loop_Suc betaA_step le_Suc_eq)
  qed
qed

lemma betaB_loop_last:
  "k < dim_N sc \<Longrightarrow> betaB (dp_loop sc k) b j (dim_N sc - 1) s = betaB (dp_init sc) b j (dim_N sc - 1) s"
proof (induction k)
  case 0
  show ?case by (simp add: dp_loop_0)
next
  case (Suc k)
  then have "dim_N sc - Suc k - 1 \<noteq> dim_N sc - 1" by arith
  then show ?case using Suc by (simp add: dp_loop_Suc betaB_step)
qed

lemma betaB_loop_untouched:
  "w' < dim_N sc - 1 - k \<Longrightarrow> betaB (dp_loop sc k) b j w' s = 0"
proof (induction k)
  case 0
  then show ?case by (simp add: dp_loop_0 dp_init_def)
next
  case (Suc k)
  then have "w' \<noteq> dim_N sc - Suc k - 1" "w' < dim_N sc - 1 - k" by arith+
  then show ?case using Suc.IH by (simp add: dp_loop_Suc betaB_step)
qed

lemma betaB_loop_mirror:
  "k < dim_N sc \<Longrightarrow> 0 < w \<Longrightarrow> w < dim_N sc \<Longrightarrow>
   betaB (dp_loop sc k) b j (dim_N sc - 1 - w) s =
     (if w \<le> j \<and> j < dim_N sc then betaA (dp_loop sc k) b (j - w) w s else 0)"
proof (induction k)
  case 0
  then have "dim_N sc - Suc w \<noteq> dim_N sc - Suc 0" by arith
  then show ?case using 0 by (simp add: dp_loop_0 dp_init_def)
next
  case (Suc k)
  show ?case
  proof (cases "w = Suc k")
    case True
    have "betaB (dp_loop sc k) b j (dim_N sc - Suc k - 1) s = 0"
      using Suc.prems by (intro betaB_loop_untouched) arith
    then show ?thesis using Suc.prems True
      by (simp add: dp_loop_Suc betaB_step betaA_loop_pos betaA_step)
  next
    case False
    then have ne: "dim_N sc - 1 - w \<noteq> dim_N sc - Suc k - 1" using Suc.prems by arith
    have "betaB (dp_loop sc (Suc k)) b j (dim_N sc - 1 - w) s = betaB (dp_loop sc k) b j (dim_N sc - 1 - w) s"
      using ne by (simp add: dp_loop_Suc betaB_step)
    also have "\<dots> = (if w \<le> j \<and> j < dim_N sc then betaA (dp_loop sc k) b (j - w) w s else 0)"
      using Suc by simp
    also have "\<dots> = (if w \<le> j \<and> j < dim_N sc then betaA (dp_loop sc (Suc k)) b (j - w) w s else 0)"
      using False by (simp add: dp_loop_Suc betaA_step)
    finally show ?thesis .
  qed
qed

section \<open>The chart holds the sums over the enumerated derivations\<close>

text \<open>
  \<open>ev_val b r\<close> is the score, at batch element \<open>b\<close>, of an event of the generator
  (\<open>zero\<close> for a raised exception); \<open>gsum sc b x s e\<close> sums the scores of everything
  \<open>enumerate(x, s, e)\<close> yields; \<open>cell sc b y i e\<close> is what the chart holds for the span
  from \<open>i\<close> to \<open>e\<close> (exclusive) and the state \<open>y\<close>.
\<close>

definition ev_val :: "nat \<Rightarrow> error + ((nat \<Rightarrow> ('a::comm_semiring_1)) \<times> 's) \<Rightarrow> 'a" where
  "ev_val b r = (case r of Inl _ \<Rightarrow> 0 | Inr (m, _) \<Rightarrow> m b)"

definition gsum :: "('a::comm_semiring_1) scores \<Rightarrow> nat \<Rightarrow> nat \<Rightarrow> nat \<Rightarrow> nat \<Rightarrow> 'a" where
  "gsum sc b x s e = sum_list (map (ev_val b) (enumerate_gen sc x s e))"

lemma ev_val_simps [simp]:
  "ev_val b (Inl e) = 0" "ev_val b (Inr (m, st)) = m b"
  by (simp_all add: ev_val_def)

lemma sum_list_map_concat_map:
  "sum_list (map g (concat (map h (xs::nat list)))) = sum_list (map (\<lambda>x. sum_list (map g (h x))) xs)"
  by (induction xs) simp_all

lemma combine_inner:
  "sum_list (map (ev_val b) (map (\<lambda>r2. case r2 of Inl e \<Rightarrow> Inl e
        | Inr (m2, z1) \<Rightarrow> Inr (\<lambda>b. (m1 b * m2 b) * R b, f z1)) G2))
   = m1 b * sum_list (map (ev_val b) G2) * R b"
proof (induction G2)
  case Nil
  show ?case by simp
next
  case (Cons r G2)
  show ?case
  proof (cases r)
    case (Inl e)
    then show ?thesis using Cons by simp
  next
    case (Inr p)
    then show ?thesis using Cons by (cases p) (simp add: algebra_simps)
  qed
qed

lemma combine_outer:
  "sum_list (map (ev_val b) (concat (map (\<lambda>r1. case r1 of Inl e \<Rightarrow> [Inl e]
        | Inr (m1, y1) \<Rightarrow> map (\<lambda>r2. case r2 of Inl e \<Rightarrow> Inl e
              | Inr (m2, z1) \<Rightarrow> Inr (\<lambda>b. (m1 b * m2 b) * R b, f y1 z1)) G2) G1)))
   = sum_list (map (ev_val b) G1) * sum_list (map (ev_val b) G2) * R b"
proof (induction G1)
  case Nil
  show ?case by simp
next
  case (Cons r G1)
  show ?case
  proof (cases r)
    case (Inl e)
    then show ?thesis using Cons by simp
  next
    case (Inr p)
    obtain m1 y1 where p: "p = (m1, y1)" by (cases p)
    have "sum_list (map (ev_val b) (map (\<lambda>r2. case r2 of Inl e \<Rightarrow> Inl e
        | Inr (m2, z1) \<Rightarrow> Inr (\<lambda>b. (m1 b * m2 b) * R b, f y1 z1)) G2))
      = m1 b * sum_list (map (ev_val b) G2) * R b"
      by (rule combine_inner)
    then show ?thesis using Cons Inr p
      by (simp add: algebra_simps)
  qed
qed

lemma gsum_leaf:
  "dim_NT sc \<le> x \<Longrightarrow> x < dim_NT sc + dim_T sc \<Longrightarrow>
   gsum sc b x s (Suc s) = terms sc b s (x - dim_NT sc)"
  by (simp add: gsum_def enumerate_gen.simps[of sc x s "Suc s"] py_index_def Let_def nat_diff_distrib')

lemma gsum_rec:
  assumes "s + 1 \<noteq> e"
  shows "gsum sc b x s e =
     sum_list (map (\<lambda>w.
       sum_list (map (\<lambda>y.
         sum_list (map (\<lambda>z. gsum sc b y s w * gsum sc b z w e * rules sc b x y z)
           (if w \<noteq> e - 1 then [0..<dim_NT sc] else [dim_NT sc..<dim_NT sc + dim_T sc])))
         (if w \<noteq> s + 1 then [0..<dim_NT sc] else [dim_NT sc..<dim_NT sc + dim_T sc])))
       [s + 1..<e])"
proof -
  have inner: "\<And>w y z. sum_list (map (ev_val b) (concat (map (\<lambda>r1.
                case r1 of
                  Inl e \<Rightarrow> [Inl e]
                | Inr (m1, y1) \<Rightarrow>
                    map (\<lambda>r2.
                      case r2 of
                        Inl e \<Rightarrow> Inl e
                      | Inr (m2, z1) \<Rightarrow>
                          Inr (\<lambda>b. (m1 b * m2 b) * rules sc b x y z,
                               [Rule x s w e] @ y1 @ z1))
                      (enumerate_gen sc z w e))
                (enumerate_gen sc y s w))))
      = gsum sc b y s w * gsum sc b z w e * rules sc b x y z"
    unfolding gsum_def by (rule combine_outer)
  have "gsum sc b x s e = sum_list (map (ev_val b) (enumerate_gen sc x s e))"
    by (simp only: gsum_def)
  also have "\<dots> = sum_list (map (\<lambda>w.
       sum_list (map (\<lambda>y.
         sum_list (map (\<lambda>z. gsum sc b y s w * gsum sc b z w e * rules sc b x y z)
           (if w \<noteq> e - 1 then [0..<dim_NT sc] else [dim_NT sc..<dim_NT sc + dim_T sc])))
         (if w \<noteq> s + 1 then [0..<dim_NT sc] else [dim_NT sc..<dim_NT sc + dim_T sc])))
       [s + 1..<e])"
    apply (subst enumerate_gen.simps)
    apply (simp only: assms if_False sum_list_map_concat_map inner)
    done
  finally show ?thesis .
qed


definition cell :: "('a::comm_semiring_1) scores \<Rightarrow> nat \<Rightarrow> nat \<Rightarrow> nat \<Rightarrow> nat \<Rightarrow> 'a" where
  "cell sc b y i e =
     (if e = i + 1 then (if dim_NT sc \<le> y \<and> y < dim_S sc then terms sc b i (y - dim_NT sc) else 0)
      else if y < dim_NT sc then gsum sc b y i e else 0)"

lemma cell_leaf:
  "cell sc b y i (Suc i) =
     (if dim_NT sc \<le> y \<and> y < dim_S sc then terms sc b i (y - dim_NT sc) else 0)"
  by (simp add: cell_def)

lemma cell_wide:
  "e \<noteq> Suc i \<Longrightarrow> cell sc b y i e = (if y < dim_NT sc then gsum sc b y i e else 0)"
  by (simp add: cell_def)

lemma sum_restrict_lo:
  fixes f :: "nat \<Rightarrow> 'a::comm_monoid_add"
  shows "sum f {0..<n} = (\<Sum>y<n + t. if y < n then f y else 0)"
proof -
  have "(\<Sum>y<n + t. if y < n then f y else 0) = sum f ({..<n + t} \<inter> {y. y < n})"
    by (simp add: sum.inter_restrict)
  also have "{..<n + t} \<inter> {y. y < n} = {0..<n}" by auto
  finally show ?thesis by simp
qed

lemma sum_restrict_hi:
  fixes f :: "nat \<Rightarrow> 'a::comm_monoid_add"
  shows "sum f {n..<n + t} = (\<Sum>y<n + t. if n \<le> y then f y else 0)"
proof -
  have "(\<Sum>y<n + t. if n \<le> y then f y else 0) = sum f ({..<n + t} \<inter> {y. n \<le> y})"
    by (simp add: sum.inter_restrict)
  also have "{..<n + t} \<inter> {y. n \<le> y} = {n..<n + t}" by auto
  finally show ?thesis by simp
qed

lemma gsum_cell:
  assumes "s + 1 < e"
  shows "gsum sc b x s e =
     (\<Sum>w = s + 1..<e. \<Sum>y<dim_S sc. \<Sum>z<dim_S sc.
         cell sc b y s w * cell sc b z w e * rules sc b x y z)"
proof -
  have ne: "s + 1 \<noteq> e" using assms by simp
  have "gsum sc b x s e = (\<Sum>w = s + 1..<e.
       sum_list (map (\<lambda>y.
         sum_list (map (\<lambda>z. gsum sc b y s w * gsum sc b z w e * rules sc b x y z)
           (if w \<noteq> e - 1 then [0..<dim_NT sc] else [dim_NT sc..<dim_NT sc + dim_T sc])))
         (if w \<noteq> s + 1 then [0..<dim_NT sc] else [dim_NT sc..<dim_NT sc + dim_T sc])))"
    by (simp only: gsum_rec[OF ne] sum_list_upt_sum)
  also have "\<dots> = (\<Sum>w = s + 1..<e. \<Sum>y<dim_S sc. \<Sum>z<dim_S sc.
         cell sc b y s w * cell sc b z w e * rules sc b x y z)"
  proof (rule sum.cong[OF refl])
    fix w assume "w \<in> {s + 1..<e}"
    then have w: "s < w" "w < e" by auto
    have zpart: "\<And>g. sum_list (map (\<lambda>z. g * gsum sc b z w e * rules sc b x y z)
           (if w \<noteq> e - 1 then [0..<dim_NT sc] else [dim_NT sc..<dim_NT sc + dim_T sc]))
        = (\<Sum>z<dim_S sc. g * cell sc b z w e * rules sc b x y z)" for y
    proof (cases "w = e - 1")
      case True
      then have e: "e = w + 1" using w by simp
      show "\<And>g. ?thesis g" using True
        by (simp add: sum_list_upt_sum sum_restrict_hi dim_S_def cell_def e gsum_leaf
                 del: upt_Suc cong: if_cong)
           (rule sum.cong, auto simp: gsum_leaf)
    next
      case False
      then have e: "e \<noteq> w + 1" using w by arith
      show "\<And>g. ?thesis g" using False
        by (simp add: sum_list_upt_sum sum_restrict_lo[where t="dim_T sc"] dim_S_def cell_def e
                 del: upt_Suc)
           (rule sum.cong, auto)
    qed
    have step1: "sum_list (map (\<lambda>y.
         sum_list (map (\<lambda>z. gsum sc b y s w * gsum sc b z w e * rules sc b x y z)
           (if w \<noteq> e - 1 then [0..<dim_NT sc] else [dim_NT sc..<dim_NT sc + dim_T sc])))
         (if w \<noteq> s + 1 then [0..<dim_NT sc] else [dim_NT sc..<dim_NT sc + dim_T sc]))
       = sum_list (map (\<lambda>y. \<Sum>z<dim_S sc. gsum sc b y s w * cell sc b z w e * rules sc b x y z)
         (if w \<noteq> s + 1 then [0..<dim_NT sc] else [dim_NT sc..<dim_NT sc + dim_T sc]))"
      by (simp only: zpart)
    have step2: "sum_list (map (\<lambda>y. \<Sum>z<dim_S sc. gsum sc b y s w * cell sc b z w e * rules sc b x y z)
         (if w \<noteq> s + 1 then [0..<dim_NT sc] else [dim_NT sc..<dim_NT sc + dim_T sc]))
       = (\<Sum>y<dim_S sc. \<Sum>z<dim_S sc. cell sc b y s w * cell sc b z w e * rules sc b x y z)"
    proof (cases "w = s + 1")
      case True
      have "(\<Sum>y = dim_NT sc..<dim_NT sc + dim_T sc. \<Sum>z<dim_S sc. gsum sc b y s w * cell sc b z w e * rules sc b x y z)
          = (\<Sum>y<dim_S sc. \<Sum>z<dim_S sc. cell sc b y s w * cell sc b z w e * rules sc b x y z)"
        unfolding sum_restrict_hi dim_S_def
        apply (rule sum.cong)
         apply simp
        apply (simp add: cell_leaf True gsum_leaf dim_S_def)
        done
      then show ?thesis using True by (simp only: sum_list_upt_sum if_True if_False simp_thms)
    next
      case False
      have "(\<Sum>y = 0..<dim_NT sc. \<Sum>z<dim_S sc. gsum sc b y s w * cell sc b z w e * rules sc b x y z)
          = (\<Sum>y<dim_S sc. \<Sum>z<dim_S sc. cell sc b y s w * cell sc b z w e * rules sc b x y z)"
        unfolding sum_restrict_lo[where t="dim_T sc"] dim_S_def
        apply (rule sum.cong)
         apply simp
        using False apply (simp add: cell_wide dim_S_def)
        done
      then show ?thesis using False by (simp only: sum_list_upt_sum if_True if_False simp_thms)
    qed
    show "sum_list (map (\<lambda>y.
         sum_list (map (\<lambda>z. gsum sc b y s w * gsum sc b z w e * rules sc b x y z)
           (if w \<noteq> e - 1 then [0..<dim_NT sc] else [dim_NT sc..<dim_NT sc + dim_T sc])))
         (if w \<noteq> s + 1 then [0..<dim_NT sc] else [dim_NT sc..<dim_NT sc + dim_T sc]))
       = (\<Sum>y<dim_S sc. \<Sum>z<dim_S sc. cell sc b y s w * cell sc b z w e * rules sc b x y z)"
      using step1 step2 by (rule trans)
  qed
  finally show ?thesis .
qed


lemma betaA_cell:
  assumes IH: "\<And>w' i' s'. 1 \<le> w' \<Longrightarrow> w' \<le> k \<Longrightarrow> i' + w' < dim_N sc \<Longrightarrow> s' < dim_NT sc \<Longrightarrow>
            span_w sc (dp_loop sc (w' - 1)) w' b i' s' = gsum sc b s' i' (i' + w' + 1)"
    and "w \<le> k" "i + w < dim_N sc" "s < dim_S sc"
  shows "betaA (dp_loop sc k) b i w s = cell sc b s i (i + w + 1)"
proof (cases "w = 0")
  case True
  then show ?thesis using assms(3,4)
    by (simp add: betaA_loop_0 dp_init_def term_use_def cell_leaf)
next
  case False
  then have w: "0 < w" "1 \<le> w" by simp_all
  have ne: "i + w + 1 \<noteq> Suc i" using w by simp
  show ?thesis
  proof (cases "s < dim_NT sc")
    case True
    have "i < dim_N sc - w" using assms(3) by arith
    then have "betaA (dp_loop sc k) b i w s = span_w sc (dp_loop sc (w - 1)) w b i s"
      using assms(2) True by (simp add: betaA_loop_pos[OF w(1)])
    also have "\<dots> = gsum sc b s i (i + w + 1)"
      by (rule IH[OF w(2) assms(2) assms(3) True])
    finally show ?thesis using True cell_wide[OF ne, of sc b s] by simp
  next
    case False
    then show ?thesis using cell_wide[OF ne, of sc b s] by (simp add: betaA_loop_pos[OF w(1)])
  qed
qed

lemma betaB_cell:
  assumes IH: "\<And>w' i' s'. 1 \<le> w' \<Longrightarrow> w' \<le> k \<Longrightarrow> i' + w' < dim_N sc \<Longrightarrow> s' < dim_NT sc \<Longrightarrow>
            span_w sc (dp_loop sc (w' - 1)) w' b i' s' = gsum sc b s' i' (i' + w' + 1)"
    and "k < dim_N sc" "u \<le> k" "u \<le> j" "j < dim_N sc" "s < dim_S sc"
  shows "betaB (dp_loop sc k) b j (dim_N sc - 1 - u) s = cell sc b s (j - u) (j + 1)"
proof (cases "u = 0")
  case True
  then show ?thesis using assms(5,6)
    by (simp add: betaB_loop_last[OF assms(2), simplified] dp_init_def term_use_def cell_leaf)
next
  case False
  then have u: "0 < u" "u < dim_N sc" using assms(4,5) by simp_all
  have "betaB (dp_loop sc k) b j (dim_N sc - 1 - u) s = betaA (dp_loop sc k) b (j - u) u s"
    using assms(4,5) betaB_loop_mirror[OF assms(2) u, of b j s] by simp
  also have "\<dots> = cell sc b s (j - u) (j - u + u + 1)"
    by (rule betaA_cell[OF IH assms(3) _ assms(6)]) (use assms(4,5) in simp_all)
  finally show ?thesis using assms(4) by simp
qed


lemma sum_only:
  fixes f :: "nat \<Rightarrow> 'a::comm_monoid_add"
  assumes "a < w" "\<And>k. k < w \<Longrightarrow> k \<noteq> a \<Longrightarrow> f k = 0"
  shows "(\<Sum>k<w. f k) = f a"
proof -
  have "(\<Sum>k<w. f k) = (\<Sum>k<w. if k = a then f a else 0)"
    by (rule sum.cong) (auto simp: assms(2))
  also have "\<dots> = f a" using assms(1) by simp
  finally show ?thesis .
qed

lemma rule_use_cell:
  assumes IH: "\<And>w' i' s'. 1 \<le> w' \<Longrightarrow> w' \<le> w - 1 \<Longrightarrow> i' + w' < dim_N sc \<Longrightarrow> s' < dim_NT sc \<Longrightarrow>
            span_w sc (dp_loop sc (w' - 1)) w' b i' s' = gsum sc b s' i' (i' + w' + 1)"
    and w: "1 \<le> w" and iw: "i + w < dim_N sc" and y: "y < dim_S sc" and z: "z < dim_S sc"
  shows "rule_use_w sc (dp_loop sc (w - 1)) w b i x y z =
           (\<Sum>k<w. cell sc b y i (i + k + 1) * cell sc b z (i + k + 1) (i + w + 1)) * rules sc b x y z"
proof -
  define c1 where "c1 k = cell sc b y i (i + k + 1)" for k
  define c2 where "c2 k = cell sc b z (i + k + 1) (i + w + 1)" for k
  have A: "betaA (dp_loop sc (w - 1)) b i k y = c1 k" if "k < w" for k
    unfolding c1_def by (rule betaA_cell[OF IH _ _ y]) (use that iw in simp_all)
  have B: "betaB (dp_loop sc (w - 1)) b (w + i) (dim_N sc - w + k) z = c2 k" if "k < w" for k
  proof -
    have idx: "dim_N sc - w + k = dim_N sc - 1 - (w - 1 - k)" using that iw by arith
    have "betaB (dp_loop sc (w - 1)) b (w + i) (dim_N sc - 1 - (w - 1 - k)) z
            = cell sc b z (w + i - (w - 1 - k)) (w + i + 1)"
      by (rule betaB_cell[OF IH _ _ _ _ z]) (use that iw in simp_all)
    moreover have "w + i - (w - 1 - k) = i + k + 1" using that by arith
    ultimately show ?thesis unfolding c2_def idx by (simp add: add.commute)
  qed
  have w1: "w - 1 < w" "0 < w" using w by simp_all
  have Blast: "betaB (dp_loop sc (w - 1)) b (w + i) (dim_N sc - 1) z = c2 (w - 1)"
  proof -
    have "dim_N sc - w + (w - 1) = dim_N sc - 1" using w iw by arith
    then show ?thesis using B[OF w1(1)] by simp
  qed
  have Bfirst: "betaB (dp_loop sc (w - 1)) b (w + i) (dim_N sc - w) z = c2 0"
    using B[OF w1(2)] by simp
  have Zzero: "c2 k = 0" if "dim_NT sc \<le> z" "k \<noteq> w - 1" "k < w" for k
  proof -
    have "i + w + 1 \<noteq> Suc (i + k + 1)" using that by arith
    then show ?thesis unfolding c2_def using that(1) by (simp add: cell_wide)
  qed
  have Yzero: "c1 k = 0" if "dim_NT sc \<le> y" "k \<noteq> 0" for k
  proof -
    have "i + k + 1 \<noteq> Suc i" using that by arith
    then show ?thesis unfolding c1_def using that(1) by (simp add: cell_wide)
  qed
  have goal: "rule_use_w sc (dp_loop sc (w - 1)) w b i x y z = (\<Sum>k<w. c1 k * c2 k) * rules sc b x y z"
  proof (cases "y < dim_NT sc")
    case yn: True
    show ?thesis
    proof (cases "z < dim_NT sc")
      case zn: True
      have "sum_list (map (\<lambda>k. betaA (dp_loop sc (w - 1)) b i k y
                * betaB (dp_loop sc (w - 1)) b (w + i) (dim_N sc - w + k) z) [0..<w])
            = (\<Sum>k<w. c1 k * c2 k)"
        unfolding sum_list_upt_sum atLeast0LessThan
        by (rule sum.cong) (use A B in simp_all)
      then show ?thesis using yn zn by (simp add: rule_use_w_def Let_def)
    next
      case zt: False
      have "(\<Sum>k<w. c1 k * c2 k) = c1 (w - 1) * c2 (w - 1)"
        by (rule sum_only[OF w1(1)]) (use zt Zzero in simp)
      then show ?thesis using yn zt A[OF w1(1)] Blast by (simp add: rule_use_w_def Let_def)
    qed
  next
    case yt: False
    show ?thesis
    proof (cases "z < dim_NT sc")
      case zn: True
      have "(\<Sum>k<w. c1 k * c2 k) = c1 0 * c2 0"
        by (rule sum_only[OF w1(2)]) (use yt Yzero in simp)
      then show ?thesis using yt zn A[OF w1(2)] Bfirst by (simp add: rule_use_w_def Let_def)
    next
      case zt: False
      show ?thesis
      proof (cases "w = 1")
        case True
        have "(\<Sum>k<w. c1 k * c2 k) = c1 0 * c2 0"
          by (rule sum_only[OF w1(2)]) (use yt Yzero in simp)
        then show ?thesis using yt zt True A[OF w1(2)] Bfirst
          by (simp add: rule_use_w_def Let_def)
      next
        case False
        have "c1 k * c2 k = 0" if "k < w" for k
        proof (cases "k = 0")
          case True
          then have "k \<noteq> w - 1" using False w by arith
          then show ?thesis using Zzero[of k] zt that by simp
        next
          case False
          then show ?thesis using Yzero[of k] yt by simp
        qed
        then have "(\<Sum>k<w. c1 k * c2 k) = 0" by simp
        then show ?thesis using yt zt False by (simp add: rule_use_w_def Let_def)
      qed
    qed
  qed
  show ?thesis using goal unfolding c1_def c2_def .
qed


lemma span_w_sum:
  "span_w sc st w b i x = (\<Sum>y<dim_S sc. \<Sum>z<dim_S sc. rule_use_w sc st w b i x y z)"
  by (simp only: span_w_def span_from_sum)

lemma sum_reindex_span:
  fixes F :: "nat \<Rightarrow> 'a::comm_monoid_add"
  shows "(\<Sum>k<w. F (i + k + 1)) = (\<Sum>w' = i + 1..<i + w + 1. F w')"
proof -
  have "(\<Sum>w' = 0 + (i + 1)..<w + (i + 1). F w') = (\<Sum>k = 0..<w. F (k + (i + 1)))"
    by (rule sum.shift_bounds_nat_ivl)
  then show ?thesis by (simp add: atLeast0LessThan ac_simps)
qed

lemma span_eq_gsum:
  "1 \<le> w \<Longrightarrow> i + w < dim_N sc \<Longrightarrow>
   span_w sc (dp_loop sc (w - 1)) w b i x = gsum sc b x i (i + w + 1)"
proof (induction w arbitrary: i x rule: less_induct)
  case (less w)
  have IH: "span_w sc (dp_loop sc (w' - 1)) w' b i' s' = gsum sc b s' i' (i' + w' + 1)"
    if "1 \<le> w'" "w' \<le> w - 1" "i' + w' < dim_N sc" "s' < dim_NT sc" for w' i' s'
    by (rule less.IH) (use that less.prems in simp_all)
  let ?a = "\<lambda>k y z. cell sc b y i (i + k + 1) * cell sc b z (i + k + 1) (i + w + 1)"
  let ?R = "\<lambda>y z. rules sc b x y z"
  have "span_w sc (dp_loop sc (w - 1)) w b i x
          = (\<Sum>y<dim_S sc. \<Sum>z<dim_S sc. rule_use_w sc (dp_loop sc (w - 1)) w b i x y z)"
    by (rule span_w_sum)
  also have "\<dots> = (\<Sum>y<dim_S sc. \<Sum>z<dim_S sc. (\<Sum>k<w. ?a k y z) * ?R y z)"
    by (intro sum.cong refl rule_use_cell[OF IH less.prems]) simp_all
  also have "\<dots> = (\<Sum>y<dim_S sc. \<Sum>z<dim_S sc. \<Sum>k<w. ?a k y z * ?R y z)"
    by (simp only: sum_distrib_right)
  also have "\<dots> = (\<Sum>y<dim_S sc. \<Sum>k<w. \<Sum>z<dim_S sc. ?a k y z * ?R y z)"
    by (rule sum.cong[OF refl]) (rule sum.swap)
  also have "\<dots> = (\<Sum>k<w. \<Sum>y<dim_S sc. \<Sum>z<dim_S sc. ?a k y z * ?R y z)"
    by (rule sum.swap)
  also have "\<dots> = (\<Sum>w' = i + 1..<i + w + 1. \<Sum>y<dim_S sc. \<Sum>z<dim_S sc.
                      cell sc b y i w' * cell sc b z w' (i + w + 1) * ?R y z)"
    by (rule sum_reindex_span[where F="\<lambda>w'. \<Sum>y<dim_S sc. \<Sum>z<dim_S sc.
                      cell sc b y i w' * cell sc b z w' (i + w + 1) * rules sc b x y z"])
  also have "\<dots> = gsum sc b x i (i + w + 1)"
    by (rule gsum_cell[symmetric]) (use less.prems in simp)
  finally show ?case .
qed

lemma betaA_final:
  assumes "1 \<le> w" "w \<le> k" "i + w < dim_N sc" "x < dim_NT sc"
  shows "betaA (dp_loop sc k) b i w x = gsum sc b x i (i + w + 1)"
proof -
  have "i < dim_N sc - w" using assms(3) by arith
  then have "betaA (dp_loop sc k) b i w x = span_w sc (dp_loop sc (w - 1)) w b i x"
    using assms by (simp add: betaA_loop_pos)
  then show ?thesis using span_eq_gsum[OF assms(1,3)] by simp
qed

section \<open>What \<open>CKY.enumerate\<close> returns\<close>

lemma collect_all_Inr: "(\<forall>r\<in>set rs. \<exists>v. r = Inr v) \<Longrightarrow> collect rs = Inr (map projr rs)"
  by (induction rs rule: collect.induct) auto

lemma py_index_terminal:
  "dim_NT sc \<le> x \<Longrightarrow> x < dim_NT sc + dim_T sc \<Longrightarrow>
   py_index (dim_T sc) (int x - int (dim_NT sc)) = Inr (x - dim_NT sc)"
  by (simp add: py_index_def Let_def nat_diff_distrib')

lemma in_set_concat_map: "r \<in> set (concat (map F ws)) \<longleftrightarrow> (\<exists>w\<in>set ws. r \<in> set (F w))"
  by auto

lemma gen_events:
  "(\<And>a b. P a \<Longrightarrow> P b \<Longrightarrow> P (a * b)) \<Longrightarrow> (\<And>b i t. P (terms sc b i t)) \<Longrightarrow>
   (\<And>b x y z. P (rules sc b x y z)) \<Longrightarrow>
   (s + 1 = e \<longrightarrow> dim_NT sc \<le> x \<and> x < dim_NT sc + dim_T sc) \<Longrightarrow>
   r \<in> set (enumerate_gen sc x s e) \<Longrightarrow> \<exists>m st. r = Inr (m, st) \<and> (\<forall>b. P (m b))"
proof (induction sc x s e arbitrary: r rule: enumerate_gen.induct)
  case (1 sc x start end')
  show ?case
  proof (cases "start + 1 = end'")
    case True
    then show ?thesis using "1.prems"
      by (simp add: enumerate_gen.simps[of sc x start end'] py_index_terminal)
  next
    case False
    have unf: "enumerate_gen sc x start end' =
        concat (map (\<lambda>w.
          concat (map (\<lambda>y.
            concat (map (\<lambda>z.
              concat (map (\<lambda>r1.
                case r1 of
                  Inl e \<Rightarrow> [Inl e]
                | Inr (m1, y1) \<Rightarrow>
                    map (\<lambda>r2.
                      case r2 of
                        Inl e \<Rightarrow> Inl e
                      | Inr (m2, z1) \<Rightarrow>
                          Inr (\<lambda>b. (m1 b * m2 b) * rules sc b x y z,
                               [Rule x start w end'] @ y1 @ z1))
                      (enumerate_gen sc z w end'))
                (enumerate_gen sc y start w)))
              (if w \<noteq> end' - 1 then [0..<dim_NT sc]
               else [dim_NT sc..<dim_NT sc + dim_T sc])))
            (if w \<noteq> start + 1 then [0..<dim_NT sc]
             else [dim_NT sc..<dim_NT sc + dim_T sc])))
          [start + 1..<end'])"
      by (subst enumerate_gen.simps) (simp only: False if_False)
    have "r \<in> set (enumerate_gen sc x start end')" by (rule "1.prems"(5))
    then obtain w y z r1 where
      w: "w \<in> set [start + 1..<end']"
      and y: "y \<in> set (if w \<noteq> start + 1 then [0..<dim_NT sc]
                         else [dim_NT sc..<dim_NT sc + dim_T sc])"
      and z: "z \<in> set (if w \<noteq> end' - 1 then [0..<dim_NT sc]
                         else [dim_NT sc..<dim_NT sc + dim_T sc])"
      and r1: "r1 \<in> set (enumerate_gen sc y start w)"
      and r: "r \<in> set (case r1 of
                  Inl e \<Rightarrow> [Inl e]
                | Inr (m1, y1) \<Rightarrow>
                    map (\<lambda>r2.
                      case r2 of
                        Inl e \<Rightarrow> Inl e
                      | Inr (m2, z1) \<Rightarrow>
                          Inr (\<lambda>b. (m1 b * m2 b) * rules sc b x y z,
                               [Rule x start w end'] @ y1 @ z1))
                      (enumerate_gen sc z w end'))"
      unfolding unf in_set_concat_map by blast
    have ty: "start + 1 = w \<longrightarrow> dim_NT sc \<le> y \<and> y < dim_NT sc + dim_T sc"
      using y by (auto split: if_splits)
    have tz: "w + 1 = end' \<longrightarrow> dim_NT sc \<le> z \<and> z < dim_NT sc + dim_T sc"
      using z w by (auto split: if_splits)
    from "1.IH"(1)[OF False w y z "1.prems"(1,2,3) ty r1]
    obtain m1 y1 where m1: "r1 = Inr (m1, y1)" "\<forall>b. P (m1 b)" by blast
    from r m1 obtain r2 where r2: "r2 \<in> set (enumerate_gen sc z w end')"
      and rr: "r = (case r2 of
                        Inl e \<Rightarrow> Inl e
                      | Inr (m2, z1) \<Rightarrow>
                          Inr (\<lambda>b. (m1 b * m2 b) * rules sc b x y z,
                               Rule x start w end' # y1 @ z1))"
      by auto
    from "1.IH"(2)[OF False w y z r1 m1(1) _ "1.prems"(1,2,3) tz r2]
    obtain m2 z1 where m2: "r2 = Inr (m2, z1)" "\<forall>b. P (m2 b)" by blast
    show ?thesis using rr m1 m2 "1.prems"(1,3) by simp
  qed
qed


lemma gen_leaf_mem:
  "dim_NT sc \<le> x \<Longrightarrow> x < dim_NT sc + dim_T sc \<Longrightarrow>
   Inr (\<lambda>b. terms sc b s (x - dim_NT sc), [Leaf s (int x - int (dim_NT sc))])
     \<in> set (enumerate_gen sc x s (s + 1))"
  by (subst enumerate_gen.simps) (simp add: py_index_terminal)

lemma gen_wide_mem:
  assumes "s + 1 \<noteq> e" "w \<in> set [s + 1..<e]"
    "y \<in> set (if w \<noteq> s + 1 then [0..<dim_NT sc] else [dim_NT sc..<dim_NT sc + dim_T sc])"
    "z \<in> set (if w \<noteq> e - 1 then [0..<dim_NT sc] else [dim_NT sc..<dim_NT sc + dim_T sc])"
    "Inr (m1, y1) \<in> set (enumerate_gen sc y s w)"
    "Inr (m2, z1) \<in> set (enumerate_gen sc z w e)"
  shows "Inr (\<lambda>b. (m1 b * m2 b) * rules sc b x y z, [Rule x s w e] @ y1 @ z1)
           \<in> set (enumerate_gen sc x s e)"
proof -
  have "Inr (\<lambda>b. (m1 b * m2 b) * rules sc b x y z, [Rule x s w e] @ y1 @ z1)
      \<in> set (case Inr (m1, y1) of
                  Inl e \<Rightarrow> [Inl e]
                | Inr (m1, y1) \<Rightarrow>
                    map (\<lambda>r2.
                      case r2 of
                        Inl e \<Rightarrow> Inl e
                      | Inr (m2, z1) \<Rightarrow>
                          Inr (\<lambda>b. (m1 b * m2 b) * rules sc b x y z,
                               [Rule x s w e] @ y1 @ z1))
                      (enumerate_gen sc z w e))"
    using assms(6) by (force simp: image_iff)
  then show ?thesis
    apply (subst enumerate_gen.simps)
    apply (simp only: assms(1) if_False in_set_concat_map)
    using assms(2,3,4,5) by blast
qed

lemma gen_nonempty:
  "1 \<le> dim_NT sc \<Longrightarrow> 1 \<le> dim_T sc \<Longrightarrow> s < e \<Longrightarrow>
   (s + 1 = e \<longrightarrow> dim_NT sc \<le> x \<and> x < dim_NT sc + dim_T sc) \<Longrightarrow>
   \<exists>m st. Inr (m, st) \<in> set (enumerate_gen sc x s e)"
proof (induction "e - s" arbitrary: x s e rule: less_induct)
  case less
  show ?case
  proof (cases "s + 1 = e")
    case True
    then show ?thesis using less.prems gen_leaf_mem[of sc x s] by auto
  next
    case False
    define z where "z = (if s + 1 \<noteq> e - 1 then 0 else dim_NT sc)"
    have w: "s + 1 \<in> set [s + 1..<e]" using False less.prems(3) by simp
    have y: "dim_NT sc \<in> set (if s + 1 \<noteq> s + 1 then [0..<dim_NT sc]
                                else [dim_NT sc..<dim_NT sc + dim_T sc])"
      using less.prems(2) by simp
    have zz: "z \<in> set (if s + 1 \<noteq> e - 1 then [0..<dim_NT sc]
                                else [dim_NT sc..<dim_NT sc + dim_T sc])"
      using less.prems(1,2) by (simp add: z_def)
    have l: "Inr (\<lambda>b. terms sc b s (dim_NT sc - dim_NT sc),
                  [Leaf s (int (dim_NT sc) - int (dim_NT sc))])
                \<in> set (enumerate_gen sc (dim_NT sc) s (s + 1))"
      by (rule gen_leaf_mem) (use less.prems(2) in simp_all)
    have "\<exists>m st. Inr (m, st) \<in> set (enumerate_gen sc z (s + 1) e)"
      by (rule less.hyps) (use False less.prems in \<open>auto simp: z_def\<close>)
    then obtain m2 z1 where r2: "Inr (m2, z1) \<in> set (enumerate_gen sc z (s + 1) e)" by blast
    from gen_wide_mem[OF False w y zz l r2, of x] show ?thesis by blast
  qed
qed


lemma gen_all_Inr:
  assumes "s + 1 = e \<longrightarrow> dim_NT sc \<le> x \<and> x < dim_NT sc + dim_T sc"
    and "r \<in> set (enumerate_gen sc x s e)"
  shows "\<exists>m st. r = Inr (m, st)"
  using gen_events[where P="\<lambda>_. True", OF _ _ _ assms] by blast

lemma cky_enumerate_value:
  assumes N: "2 \<le> dim_N sc" and NT: "1 \<le> dim_NT sc" and T: "1 \<le> dim_T sc"
  shows "cky_enumerate sc =
           Inr (map (\<lambda>b. \<Sum>x<dim_NT sc. gsum sc b x 0 (dim_N sc) * roots sc b x)
                    [0..<dim_batch sc])"
    and "\<exists>ls. enumerate_scores sc = Inr ls \<and> ls \<noteq> [] \<and>
           (\<forall>b. sum_list (map (\<lambda>s. s b) ls)
                  = (\<Sum>x<dim_NT sc. gsum sc b x 0 (dim_N sc) * roots sc b x))"
proof -
  define F where "F nt r = (case r of Inl e \<Rightarrow> Inl e
         | Inr (s, _) \<Rightarrow> Inr (\<lambda>b. s b * roots sc b nt))"
    for nt :: nat and r :: "error + 'a derivation"
  define L where "L = concat (map (\<lambda>nt. map (F nt) (enumerate_gen sc nt 0 (dim_N sc)))
                              [0..<dim_NT sc])"
  have leafN: "0 + 1 = dim_N sc \<longrightarrow> dim_NT sc \<le> x \<and> x < dim_NT sc + dim_T sc" for x
    using N by simp
  have es: "enumerate_scores sc = collect L"
    unfolding enumerate_scores_def L_def F_def by (rule refl)
  have allInr: "\<forall>r\<in>set L. \<exists>v. r = Inr v"
  proof
    fix r assume "r \<in> set L"
    then obtain nt r0 where "r0 \<in> set (enumerate_gen sc nt 0 (dim_N sc))" "r = F nt r0"
      unfolding L_def by auto
    moreover from gen_all_Inr[OF leafN this(1)] obtain m st where "r0 = Inr (m, st)" by blast
    ultimately show "\<exists>v. r = Inr v" by (simp add: F_def)
  qed
  have val: "enumerate_scores sc = Inr (map projr L)"
    unfolding es by (rule collect_all_Inr[OF allInr])
  have ne: "map projr L \<noteq> []"
  proof -
    from gen_nonempty[OF NT T _ leafN, of 0] N
    obtain m st where "Inr (m, st) \<in> set (enumerate_gen sc 0 0 (dim_N sc))" by auto
    then have "F 0 (Inr (m, st)) \<in> set L" unfolding L_def using NT by auto
    then show ?thesis by auto
  qed
  have sum: "sum_list (map (\<lambda>s. s b) (map projr L))
              = (\<Sum>x<dim_NT sc. gsum sc b x 0 (dim_N sc) * roots sc b x)" for b
  proof -
    have per: "sum_list (map (\<lambda>r. projr (F nt r) b) (enumerate_gen sc nt 0 (dim_N sc)))
                = gsum sc b nt 0 (dim_N sc) * roots sc b nt" for nt
    proof -
      have "map (\<lambda>r. projr (F nt r) b) (enumerate_gen sc nt 0 (dim_N sc))
              = map (\<lambda>r. ev_val b r * roots sc b nt) (enumerate_gen sc nt 0 (dim_N sc))"
      proof (rule map_cong[OF refl])
        fix r assume "r \<in> set (enumerate_gen sc nt 0 (dim_N sc))"
        from gen_all_Inr[OF leafN this] obtain m st where "r = Inr (m, st)" by blast
        then show "projr (F nt r) b = ev_val b r * roots sc b nt" by (simp add: F_def)
      qed
      then have "sum_list (map (\<lambda>r. projr (F nt r) b) (enumerate_gen sc nt 0 (dim_N sc)))
              = sum_list (map (\<lambda>r. ev_val b r * roots sc b nt) (enumerate_gen sc nt 0 (dim_N sc)))"
        by (rule arg_cong)
      also have "\<dots> = gsum sc b nt 0 (dim_N sc) * roots sc b nt"
        by (simp only: gsum_def sum_list_mult_const)
      finally show ?thesis .
    qed
    have "sum_list (map (\<lambda>s. s b) (map projr L))
            = sum_list (map (\<lambda>nt. sum_list (map (\<lambda>r. projr (F nt r) b)
                  (enumerate_gen sc nt 0 (dim_N sc)))) [0..<dim_NT sc])"
      unfolding L_def by (simp add: map_concat o_def sum_list_concat_map del: upt_Suc)
    also have "\<dots> = (\<Sum>x<dim_NT sc. gsum sc b x 0 (dim_N sc) * roots sc b x)"
      by (simp only: per sum_list_upt_sum atLeast0LessThan)
    finally show ?thesis .
  qed
  show "cky_enumerate sc =
           Inr (map (\<lambda>b. \<Sum>x<dim_NT sc. gsum sc b x 0 (dim_N sc) * roots sc b x)
                    [0..<dim_batch sc])"
    unfolding cky_enumerate_def val using ne sum by (simp del: upt_Suc)
  show "\<exists>ls. enumerate_scores sc = Inr ls \<and> ls \<noteq> [] \<and>
           (\<forall>b. sum_list (map (\<lambda>s. s b) ls)
                  = (\<Sum>x<dim_NT sc. gsum sc b x 0 (dim_N sc) * roots sc b x))"
    using val ne sum by blast
qed

section \<open>What \<open>CKY._dp\<close> returns\<close>

lemma collect_Inr_nth:
  "collect rs = Inr vs \<Longrightarrow> length vs = length rs \<and> (\<forall>i<length rs. rs ! i = Inr (vs ! i))"
proof (induction rs arbitrary: vs rule: collect.induct)
  case 1
  then show ?case by simp
next
  case (2 e rs)
  then show ?case by simp
next
  case (3 v rs)
  then obtain vs' where c: "collect rs = Inr vs'" and vs: "vs = v # vs'"
    by (auto split: sum.splits)
  from "3.IH"[OF c] show ?case by (auto simp: vs nth_Cons')
qed

lemma py_index_length:
  "1 \<le> l \<Longrightarrow> l \<le> int n \<Longrightarrow> py_index n (l - 1) = Inr (nat l - 1)"
  by (simp add: py_index_def Let_def nat_diff_distrib')

lemma log_Z_at:
  assumes ok: "log_Z sc (Some ls) = Inr v"
    and len: "length ls = dim_batch sc" and b: "b < dim_batch sc"
    and l1: "1 \<le> ls ! b" and l2: "ls ! b \<le> int (dim_N sc)"
  shows "v ! b = (\<Sum>x<dim_NT sc. betaA (dp_loop sc (dim_N sc - 1)) b 0 (nat (ls ! b) - 1) x
                     * roots sc b x)"
proof -
  define st where "st = dp_loop sc (dim_N sc - 1)"
  from ok obtain rows tp where
    rows: "top_rows sc st ls = Inr rows" and tp: "top_assign sc rows = Inr tp"
    and v: "v = map (\<lambda>b. sum_list (map (\<lambda>x. tp b x * roots sc b x) [0..<dim_NT sc]))
                    [0..<dim_batch sc]"
    unfolding log_Z_def cky_dp_def dp_finish_def dot_top_def st_def
    by (auto simp: Let_def split: if_splits sum.splits simp del: upt_Suc)
  from collect_Inr_nth[OF rows[unfolded top_rows_def]]
  have lr: "length rows = length ls"
    and nth: "\<forall>i<length ls. (map (\<lambda>(i, l).
        if dim_batch sc \<le> i then Inl IndexError
        else (case py_index (dim_N sc) (l - 1) of
                Inl e \<Rightarrow> Inl e
              | Inr w \<Rightarrow> Inr (\<lambda>x. betaA st i 0 w x))) (zip [0..<length ls] ls)) ! i
          = Inr (rows ! i)"
    by simp_all
  have "b < length ls" using b len by simp
  from nth[rule_format, OF this] b len py_index_length[OF l1 l2]
  have "Inr (rows ! b) = (Inr (\<lambda>x. betaA st b 0 (nat (ls ! b) - 1) x)
        :: error + (nat \<Rightarrow> 'a))"
    by simp
  then have rb: "rows ! b = (\<lambda>x. betaA st b 0 (nat (ls ! b) - 1) x)" by simp
  have "tp = (\<lambda>b. rows ! b)" using tp lr len b
    by (auto simp: top_assign_def split: if_splits)
  then have "tp b = (\<lambda>x. betaA st b 0 (nat (ls ! b) - 1) x)" using rb by simp
  then show ?thesis using b unfolding v st_def
    by (simp add: sum_list_upt_sum atLeast0LessThan del: upt_Suc)
qed


lemma log_Z_ok:
  assumes batch: "1 \<le> dim_batch sc" and len: "length ls = dim_batch sc"
    and valid: "\<forall>l\<in>set ls. 1 \<le> l \<and> l \<le> int (dim_N sc)"
  shows "\<exists>v. log_Z sc (Some ls) = Inr v \<and> length v = dim_batch sc"
proof -
  define st where "st = dp_loop sc (dim_N sc - 1)"
  define f where "f = (\<lambda>(i, l).
        if dim_batch sc \<le> i then Inl IndexError
        else (case py_index (dim_N sc) (l - 1) of
                Inl e \<Rightarrow> Inl e
              | Inr w \<Rightarrow> (Inr (\<lambda>x. betaA st i 0 w x) :: error + (nat \<Rightarrow> 'a))))"
  have N: "dim_N sc \<noteq> 0"
  proof -
    from batch len obtain l where "l \<in> set ls" by (cases ls) auto
    with valid show ?thesis by force
  qed
  have "\<forall>r\<in>set (map f (zip [0..<length ls] ls)). \<exists>v. r = Inr v"
  proof
    fix r assume "r \<in> set (map f (zip [0..<length ls] ls))"
    then obtain i l where il: "(i, l) \<in> set (zip [0..<length ls] ls)" and r: "r = f (i, l)"
      by auto
    from il have "i < length ls" "l \<in> set ls" by (auto dest: set_zip_leftD set_zip_rightD)
    then show "\<exists>v. r = Inr v" using valid len r
      by (simp add: f_def py_index_length)
  qed
  from collect_all_Inr[OF this]
  have rows: "top_rows sc st ls = Inr (map projr (map f (zip [0..<length ls] ls)))"
    unfolding top_rows_def f_def .
  have "top_assign sc (map projr (map f (zip [0..<length ls] ls)))
          = Inr (\<lambda>b. map projr (map f (zip [0..<length ls] ls)) ! b)"
    using batch len by (auto simp: top_assign_def)
  then show ?thesis using rows N
    unfolding log_Z_def cky_dp_def dp_finish_def dot_top_def st_def by (simp add: Let_def del: upt_Suc)
qed

lemma log_Z_value:
  assumes batch: "1 \<le> dim_batch sc" and len: "length ls = dim_batch sc"
    and valid: "\<forall>l\<in>set ls. 1 \<le> l \<and> l \<le> int (dim_N sc)"
  shows "log_Z sc (Some ls) =
           Inr (map (\<lambda>b. \<Sum>x<dim_NT sc.
                   betaA (dp_loop sc (dim_N sc - 1)) b 0 (nat (ls ! b) - 1) x * roots sc b x)
                [0..<dim_batch sc])"
proof -
  from log_Z_ok[OF assms] obtain v where
    v: "log_Z sc (Some ls) = Inr v" and lv: "length v = dim_batch sc" by blast
  have "v = map (\<lambda>b. \<Sum>x<dim_NT sc.
                   betaA (dp_loop sc (dim_N sc - 1)) b 0 (nat (ls ! b) - 1) x * roots sc b x)
                [0..<dim_batch sc]"
  proof (rule nth_equalityI)
    show "length v = length (map (\<lambda>b. \<Sum>x<dim_NT sc.
                   betaA (dp_loop sc (dim_N sc - 1)) b 0 (nat (ls ! b) - 1) x * roots sc b x)
                [0..<dim_batch sc])" using lv by simp
  next
    fix b assume "b < length v"
    then have b: "b < dim_batch sc" using lv by simp
    then have "ls ! b \<in> set ls" using len by simp
    then have "1 \<le> ls ! b" "ls ! b \<le> int (dim_N sc)" using valid by auto
    from log_Z_at[OF v len b this] b
    show "v ! b = map (\<lambda>b. \<Sum>x<dim_NT sc.
                   betaA (dp_loop sc (dim_N sc - 1)) b 0 (nat (ls ! b) - 1) x * roots sc b x)
                [0..<dim_batch sc] ! b" by (simp del: upt_Suc)
  qed
  then show ?thesis using v by simp
qed

lemma log_Z_None: "log_Z sc None = log_Z sc (Some (replicate (dim_batch sc) (int (dim_N sc))))"
  by (simp add: log_Z_def cky_dp_def)

lemma log_Z_full:
  assumes N: "2 \<le> dim_N sc" and batch: "1 \<le> dim_batch sc"
  shows "log_Z sc None =
           Inr (map (\<lambda>b. \<Sum>x<dim_NT sc. gsum sc b x 0 (dim_N sc) * roots sc b x)
                    [0..<dim_batch sc])"
proof -
  have cellv: "betaA (dp_loop sc (dim_N sc - 1)) b 0 (dim_N sc - 1) x = gsum sc b x 0 (dim_N sc)"
    if "x < dim_NT sc" for b x
    using betaA_final[of "dim_N sc - 1" "dim_N sc - 1" 0 sc x b] that N by simp
  have "log_Z sc None =
           Inr (map (\<lambda>b. \<Sum>x<dim_NT sc.
                   betaA (dp_loop sc (dim_N sc - 1)) b 0
                     (nat (replicate (dim_batch sc) (int (dim_N sc)) ! b) - 1) x * roots sc b x)
                [0..<dim_batch sc])"
    unfolding log_Z_None by (rule log_Z_value) (use N batch in simp_all)
  also have "\<dots> = Inr (map (\<lambda>b. \<Sum>x<dim_NT sc. gsum sc b x 0 (dim_N sc) * roots sc b x)
                    [0..<dim_batch sc])"
    using cellv by (auto intro!: sum.cong simp del: upt_Suc)
  finally show ?thesis .
qed

section \<open>Sums in the Log and the Max semiring\<close>

lemma collect_Inr_map: "collect rs = Inr vs \<Longrightarrow> rs = map Inr vs"
proof (induction rs arbitrary: vs rule: collect.induct)
  case 1
  then show ?case by simp
next
  case (2 e rs)
  then show ?case by simp
next
  case (3 v rs)
  then show ?case by (auto split: sum.splits)
qed

lemma enumerate_scores_pred:
  assumes N: "2 \<le> dim_N sc"
    and mult: "\<And>a b. P a \<Longrightarrow> P b \<Longrightarrow> P (a * b)"
    and pt: "\<And>b i t. P (terms sc b i t)"
    and pr: "\<And>b x y z. P (rules sc b x y z)"
    and po: "\<And>b x. P (roots sc b x)"
    and ds: "enumerate_scores sc = Inr ds" and d: "d \<in> set ds"
  shows "P (d b)"
proof -
  from collect_Inr_map[OF ds[unfolded enumerate_scores_def]] d
  have "Inr d \<in> set (concat (map (\<lambda>nt.
              map (\<lambda>r. case r of
                          Inl e \<Rightarrow> Inl e
                        | Inr (s, _) \<Rightarrow> Inr (\<lambda>b. s b * roots sc b nt))
                  (enumerate_gen sc nt 0 (dim_N sc)))
              [0..<dim_NT sc]))"
    by simp
  then obtain nt r0 where r0: "r0 \<in> set (enumerate_gen sc nt 0 (dim_N sc))"
    and eq: "Inr d = (case r0 of Inl e \<Rightarrow> Inl e
                        | Inr (s, _) \<Rightarrow> Inr (\<lambda>b. s b * roots sc b nt))"
    by (auto simp del: upt_Suc)
  have "0 + 1 = dim_N sc \<longrightarrow> dim_NT sc \<le> nt \<and> nt < dim_NT sc + dim_T sc" using N by simp
  from gen_events[of P sc 0 "dim_N sc" nt r0, OF mult pt pr this r0]
  obtain m st where "r0 = Inr (m, st)" "\<forall>b. P (m b)" by blast
  then show ?thesis using eq mult po by simp
qed

lemma sum_exp_nonneg: "0 \<le> (\<Sum>r\<leftarrow>rs. exp (r::real))"
  by (induction rs) simp_all

lemma sum_exp_pos: "rs \<noteq> [] \<Longrightarrow> 0 < (\<Sum>r\<leftarrow>rs. exp (r::real))"
proof (cases rs)
  case Nil
  assume "rs \<noteq> []"
  with Nil show ?thesis by simp
next
  case (Cons r rs')
  have "0 < exp r + (\<Sum>r\<leftarrow>rs'. exp r)"
    by (rule add_pos_nonneg) (simp_all add: sum_exp_nonneg)
  then show ?thesis using Cons by simp
qed

lemma log_sum_list:
  "rs \<noteq> [] \<Longrightarrow> sum_list (map LogVal rs) = LogVal (ln (\<Sum>r\<leftarrow>rs. exp r))"
proof (induction rs)
  case Nil
  then show ?case by simp
next
  case (Cons r rs)
  show ?case
  proof (cases "rs = []")
    case True
    then show ?thesis by (simp add: zero_logsr_def)
  next
    case False
    have pos: "0 < (\<Sum>r\<leftarrow>rs. exp r)"
      using False sum_exp_pos by blast
    show ?thesis using Cons.IH[OF False] pos by simp
  qed
qed

lemma max_sum_list:
  "rs \<noteq> [] \<Longrightarrow> sum_list (map MaxVal rs) = MaxVal (Max (set rs))"
proof (induction rs)
  case Nil
  then show ?case by simp
next
  case (Cons r rs)
  show ?case
  proof (cases "rs = []")
    case True
    then show ?thesis by (simp add: zero_maxsr_def)
  next
    case False
    then show ?thesis using Cons.IH[OF False] by simp
  qed
qed

lemma log_convert_dims [simp]:
  "dim_batch (log_convert sc) = dim_batch sc" "dim_N (log_convert sc) = dim_N sc"
  "dim_NT (log_convert sc) = dim_NT sc" "dim_T (log_convert sc) = dim_T sc"
  by (simp_all add: log_convert_def)

lemma max_convert_dims [simp]:
  "dim_batch (max_convert sc) = dim_batch sc" "dim_N (max_convert sc) = dim_N sc"
  "dim_NT (max_convert sc) = dim_NT sc" "dim_T (max_convert sc) = dim_T sc"
  by (simp_all add: max_convert_def)

section \<open>Padding\<close>

lemma gsum_agree:
  assumes nt: "dim_NT sc1 = dim_NT sc2" and t: "dim_T sc1 = dim_T sc2"
    and r: "\<And>x y z. rules sc1 b x y z = rules sc2 b x y z"
  shows "(\<And>i t. s \<le> i \<Longrightarrow> i < e \<Longrightarrow> terms sc1 b i t = terms sc2 b i t) \<Longrightarrow>
         gsum sc1 b x s e = gsum sc2 b x s e"
proof (induction "e - s" arbitrary: x s e rule: less_induct)
  case less
  show ?case
  proof (cases "s + 1 = e")
    case True
    have "terms sc1 b s t' = terms sc2 b s t'" for t'
      using less.prems[of s t'] True by simp
    then show ?thesis using True
      by (simp add: gsum_def enumerate_gen.simps[of _ x s e] nt t split: sum.splits)
  next
    case False
    have sub: "gsum sc1 b y s w * gsum sc1 b z w e * rules sc1 b x y z
             = gsum sc2 b y s w * gsum sc2 b z w e * rules sc2 b x y z"
      if "w \<in> set [s + 1..<e]" for w y z
    proof -
      from that have w: "s < w" "w < e" by auto
      have "gsum sc1 b y s w = gsum sc2 b y s w"
        by (rule less.hyps) (use w less.prems in auto)
      moreover have "gsum sc1 b z w e = gsum sc2 b z w e"
        by (rule less.hyps) (use w less.prems in auto)
      ultimately show ?thesis by (simp add: r)
    qed
    show ?thesis
      unfolding gsum_rec[OF False] nt t
      by (intro arg_cong[where f=sum_list] map_cong refl) (simp only: sub)
  qed
qed

lemma top_cell_agree:
  assumes nt: "dim_NT sc1 = dim_NT sc2" and t: "dim_T sc1 = dim_T sc2"
    and r: "\<And>x y z. rules sc1 b x y z = rules sc2 b x y z"
    and tm: "\<And>i t. i < w + 1 \<Longrightarrow> terms sc1 b i t = terms sc2 b i t"
    and w1: "w < dim_N sc1" and w2: "w < dim_N sc2" and x: "x < dim_NT sc1"
  shows "betaA (dp_loop sc1 (dim_N sc1 - 1)) b 0 w x = betaA (dp_loop sc2 (dim_N sc2 - 1)) b 0 w x"
proof (cases "w = 0")
  case True
  then show ?thesis using x nt by (simp add: betaA_loop_0 dp_init_def)
next
  case False
  have "betaA (dp_loop sc1 (dim_N sc1 - 1)) b 0 w x = gsum sc1 b x 0 (0 + w + 1)"
    by (rule betaA_final) (use False w1 x in simp_all)
  moreover have "betaA (dp_loop sc2 (dim_N sc2 - 1)) b 0 w x = gsum sc2 b x 0 (0 + w + 1)"
    by (rule betaA_final) (use False w2 x nt in simp_all)
  moreover have "gsum sc1 b x 0 (0 + w + 1) = gsum sc2 b x 0 (0 + w + 1)"
    by (rule gsum_agree[OF nt t r]) (use tm in simp)
  ultimately show ?thesis by simp
qed

section \<open>\<open>CKY._dp\<close> returns whatever the numbers of symbols\<close>


section \<open>Gradients of totals that are affine in an entry\<close>

lemma is_grad_shift:
  assumes "\<And>h. F (LogVal h) = Inr [LogVal (h + c)]"
  shows "is_grad F r 1"
  unfolding is_grad_def
proof (intro exI[of _ "\<lambda>h. h + c"] conjI)
  show "eventually (\<lambda>h. \<exists>v. F (LogVal h) = Inr v \<and> unconvert_sum v = Some (h + c)) (nhds r)"
    by (simp add: assms)
  show "((\<lambda>h. h + c) has_real_derivative 1) (at r)"
    by (auto intro!: derivative_eq_intros)
qed

text \<open>
  Resuming from the tensor \<open>rule_use[w - 1]\<close> that \<open>_dp\<close> itself wrote gives the totals
  of \<open>_dp\<close>; so does resuming from \<open>term_use\<close> and from \<open>top\<close>.
\<close>

lemma resume_from_rule_use_same:
  assumes "1 \<le> w" and "w < dim_N sc"
  shows "resume_from_rule_use sc lengths w (rule_use_block sc (dp_loop sc (w - 1)) w)
           = log_Z sc lengths"
proof -
  have "[1..<Suc (dim_N sc - 1)] = [1..<Suc w] @ [Suc w..<dim_N sc]"
    using assms upt_add_eq_append[of 1 "Suc w" "dim_N sc - Suc w"] by (simp del: upt_Suc)
  then have "dp_loop sc (dim_N sc - 1)
           = fold (dp_step sc) [Suc w..<dim_N sc] (dp_loop sc w)"
    by (simp add: dp_loop_def del: upt_Suc)
  moreover have "dp_loop sc w = dp_write sc w (rule_use_block sc (dp_loop sc (w - 1)) w)
                                  (dp_loop sc (w - 1))"
    using assms(1) dp_loop_Suc[of sc "w - 1"] by (simp add: dp_step_def)
  ultimately show ?thesis
    using assms by (simp add: resume_from_rule_use_def log_Z_def cky_dp_def Let_def)
qed

lemma resume_from_term_use_same: "resume_from_term_use sc lengths (term_use sc) = log_Z sc lengths"
  by (simp add: resume_from_term_use_def term_use_def)

lemma resume_from_top_same:
  "cky_dp sc lengths = Inr (v, tp, st) \<Longrightarrow> resume_from_top sc tp = Inr v"
  by (auto simp: resume_from_top_def cky_dp_def dp_finish_def Let_def
           split: if_splits sum.splits)

section \<open>The loop of \<open>CKY_CRF._dp\<close>, cell by cell\<close>

lemma crf_loop_0: "crf_loop sc 0 = crf_init sc"
  by (simp add: crf_loop_def)

lemma crf_loop_Suc: "crf_loop sc (Suc k) = crf_step sc (Suc k) (crf_loop sc k)"
  by (simp add: crf_loop_def)

lemma crf_betaA_step:
  "crf_betaA (crf_step sc w st) b i w' =
     (if i < crf_N sc - w \<and> w' = w then crf_span sc st w b i else crf_betaA st b i w')"
  by (simp add: crf_step_def Let_def)

lemma crf_betaB_step:
  "crf_betaB (crf_step sc w st) b j w' =
     (if w \<le> j \<and> j < crf_N sc \<and> w' = crf_N sc - w - 1
      then crf_betaA (crf_step sc w st) b (j - w) w
      else crf_betaB st b j w')"
  by (simp add: crf_step_def Let_def)

lemma crf_betaA_loop_0: "crf_betaA (crf_loop sc k) b i 0 = crf_betaA (crf_init sc) b i 0"
  by (induction k) (simp_all add: crf_loop_0 crf_loop_Suc crf_betaA_step)

lemma crf_betaA_loop_pos:
  "0 < w \<Longrightarrow> crf_betaA (crf_loop sc k) b i w =
     (if w \<le> k \<and> i < crf_N sc - w then crf_span sc (crf_loop sc (w - 1)) w b i else 0)"
proof (induction k)
  case 0
  then show ?case by (simp add: crf_loop_0 crf_init_def)
next
  case (Suc k)
  show ?case
  proof (cases "w = Suc k")
    case True
    then show ?thesis using Suc by (simp add: crf_loop_Suc crf_betaA_step)
  next
    case False
    then show ?thesis using Suc by (simp add: crf_loop_Suc crf_betaA_step le_Suc_eq)
  qed
qed

lemma crf_betaB_loop_last:
  "k < crf_N sc \<Longrightarrow>
   crf_betaB (crf_loop sc k) b j (crf_N sc - 1) = crf_betaB (crf_init sc) b j (crf_N sc - 1)"
proof (induction k)
  case 0
  show ?case by (simp add: crf_loop_0)
next
  case (Suc k)
  then have "crf_N sc - Suc k - 1 \<noteq> crf_N sc - 1" by arith
  then show ?case using Suc by (simp add: crf_loop_Suc crf_betaB_step)
qed

lemma crf_betaB_loop_untouched:
  "w' < crf_N sc - 1 - k \<Longrightarrow> crf_betaB (crf_loop sc k) b j w' = 0"
proof (induction k)
  case 0
  then show ?case by (simp add: crf_loop_0 crf_init_def)
next
  case (Suc k)
  then have "w' \<noteq> crf_N sc - Suc k - 1" "w' < crf_N sc - 1 - k" by arith+
  then show ?case using Suc.IH by (simp add: crf_loop_Suc crf_betaB_step)
qed

lemma crf_betaB_loop_mirror:
  "k < crf_N sc \<Longrightarrow> 0 < w \<Longrightarrow> w < crf_N sc \<Longrightarrow>
   crf_betaB (crf_loop sc k) b j (crf_N sc - 1 - w) =
     (if w \<le> j \<and> j < crf_N sc then crf_betaA (crf_loop sc k) b (j - w) w else 0)"
proof (induction k)
  case 0
  then have "crf_N sc - Suc w \<noteq> crf_N sc - Suc 0" by arith
  then show ?case using 0 by (simp add: crf_loop_0 crf_init_def)
next
  case (Suc k)
  show ?case
  proof (cases "w = Suc k")
    case True
    have "crf_betaB (crf_loop sc k) b j (crf_N sc - Suc k - 1) = 0"
      using Suc.prems by (intro crf_betaB_loop_untouched) arith
    then show ?thesis using Suc.prems True
      by (simp add: crf_loop_Suc crf_betaB_step crf_betaA_loop_pos crf_betaA_step)
  next
    case False
    then have ne: "crf_N sc - 1 - w \<noteq> crf_N sc - Suc k - 1" using Suc.prems by arith
    have "crf_betaB (crf_loop sc (Suc k)) b j (crf_N sc - 1 - w)
            = crf_betaB (crf_loop sc k) b j (crf_N sc - 1 - w)"
      using ne by (simp add: crf_loop_Suc crf_betaB_step)
    also have "\<dots> = (if w \<le> j \<and> j < crf_N sc then crf_betaA (crf_loop sc k) b (j - w) w else 0)"
      using Suc by simp
    also have "\<dots> = (if w \<le> j \<and> j < crf_N sc then crf_betaA (crf_loop sc (Suc k)) b (j - w) w else 0)"
      using False by (simp add: crf_loop_Suc crf_betaA_step)
    finally show ?thesis .
  qed
qed

section \<open>The chart of \<open>CKY_CRF._dp\<close> holds the sums over the enumerated derivations\<close>

text \<open>
  \<open>cgsum sc b x s e\<close> sums the scores of everything \<open>enumerate(x, s, e)\<close> of \<open>CKY_CRF\<close>
  yields; \<open>ccell sc b s e\<close> sums it over the labels \<open>x\<close>, which is what the chart holds
  for the span from \<open>s\<close> to \<open>e\<close> (exclusive).
\<close>

definition cgsum :: "('a::comm_semiring_1) crf_scores \<Rightarrow> nat \<Rightarrow> nat \<Rightarrow> nat \<Rightarrow> nat \<Rightarrow> 'a" where
  "cgsum sc b x s e = sum_list (map (ev_val b) (crf_enumerate_gen sc x s e))"

definition ccell :: "('a::comm_semiring_1) crf_scores \<Rightarrow> nat \<Rightarrow> nat \<Rightarrow> nat \<Rightarrow> 'a" where
  "ccell sc b s e = (\<Sum>x<crf_NT sc. cgsum sc b x s e)"

lemma reduced_scores_sum: "reduced_scores sc b i j = (\<Sum>x<crf_NT sc. crf_pot sc b i j x)"
  by (simp only: reduced_scores_def sum_list_upt_sum atLeast0LessThan)

lemma cgsum_leaf:
  "s < crf_N sc \<Longrightarrow> x < crf_NT sc \<Longrightarrow> cgsum sc b x s (Suc s) = crf_pot sc b s s x"
  by (simp add: cgsum_def crf_enumerate_gen.simps[of sc x s "Suc s"] crf_index_def)

lemma ccell_leaf: "s < crf_N sc \<Longrightarrow> ccell sc b s (Suc s) = reduced_scores sc b s s"
  by (simp add: ccell_def reduced_scores_sum cgsum_leaf)

lemma cgsum_rec:
  assumes "s + 1 \<noteq> e" and "s < crf_N sc" and "e \<le> crf_N sc" and "x < crf_NT sc"
  shows "cgsum sc b x s e =
     sum_list (map (\<lambda>w.
       sum_list (map (\<lambda>y.
         sum_list (map (\<lambda>z. cgsum sc b y s w * cgsum sc b z w e * crf_pot sc b s (e - 1) x)
           [0..<crf_NT sc]))
         [0..<crf_NT sc]))
       [s + 1..<e])"
proof -
  have idx: "crf_index sc s (e - 1) x = Inr (\<lambda>b. crf_pot sc b s (e - 1) x)"
    using assms by (simp add: crf_index_def)
  have inner: "\<And>w y z. sum_list (map (ev_val b) (concat (map (\<lambda>r1.
                case r1 of
                  Inl e \<Rightarrow> [Inl e]
                | Inr (m1, y1) \<Rightarrow>
                    map (\<lambda>r2.
                      case r2 of
                        Inl e \<Rightarrow> Inl e
                      | Inr (m2, z1) \<Rightarrow>
                          Inr (\<lambda>b. (m1 b * m2 b) * crf_pot sc b s (e - 1) x,
                               [SpanRule x s w e] @ y1 @ z1))
                      (crf_enumerate_gen sc z w e))
                (crf_enumerate_gen sc y s w))))
      = cgsum sc b y s w * cgsum sc b z w e * crf_pot sc b s (e - 1) x"
    unfolding cgsum_def by (rule combine_outer[where R="\<lambda>b. crf_pot sc b s (e - 1) x"])
  have "cgsum sc b x s e = sum_list (map (ev_val b) (crf_enumerate_gen sc x s e))"
    by (simp only: cgsum_def)
  also have "\<dots> = sum_list (map (\<lambda>w.
       sum_list (map (\<lambda>y.
         sum_list (map (\<lambda>z. cgsum sc b y s w * cgsum sc b z w e * crf_pot sc b s (e - 1) x)
           [0..<crf_NT sc]))
         [0..<crf_NT sc]))
       [s + 1..<e])"
    apply (subst crf_enumerate_gen.simps)
    apply (simp only: assms(1) if_False idx sum.case sum_list_map_concat_map inner)
    done
  finally show ?thesis .
qed

lemma sum_prod3:
  fixes f g :: "nat \<Rightarrow> 'a::comm_semiring_1"
  shows "(\<Sum>y\<in>A. \<Sum>z\<in>B. f y * g z * p) = (\<Sum>y\<in>A. f y) * (\<Sum>z\<in>B. g z) * p"
proof -
  have "(\<Sum>y\<in>A. f y) * (\<Sum>z\<in>B. g z) * p = (\<Sum>y\<in>A. \<Sum>z\<in>B. f y * g z) * p"
    by (simp only: sum_product)
  also have "\<dots> = (\<Sum>y\<in>A. (\<Sum>z\<in>B. f y * g z) * p)"
    by (rule sum_distrib_right)
  also have "\<dots> = (\<Sum>y\<in>A. \<Sum>z\<in>B. f y * g z * p)"
    by (rule sum.cong[OF refl]) (rule sum_distrib_right)
  finally show ?thesis by (rule sym)
qed

lemma ccell_rec:
  assumes "s + 1 < e" and "e \<le> crf_N sc"
  shows "ccell sc b s e =
           (\<Sum>w = s + 1..<e. ccell sc b s w * ccell sc b w e) * reduced_scores sc b s (e - 1)"
proof -
  have ne: "s + 1 \<noteq> e" and sN: "s < crf_N sc" using assms by simp_all
  let ?p = "\<lambda>x. crf_pot sc b s (e - 1) x"
  have "ccell sc b s e = (\<Sum>x<crf_NT sc. \<Sum>w = s + 1..<e. \<Sum>y<crf_NT sc. \<Sum>z<crf_NT sc.
          cgsum sc b y s w * cgsum sc b z w e * ?p x)"
    unfolding ccell_def
    by (rule sum.cong[OF refl])
       (simp only: cgsum_rec[OF ne sN assms(2)] sum_list_upt_sum atLeast0LessThan lessThan_iff)
  also have "\<dots> = (\<Sum>x<crf_NT sc. \<Sum>w = s + 1..<e. (ccell sc b s w * ccell sc b w e) * ?p x)"
    unfolding ccell_def by (simp only: sum_prod3)
  also have "\<dots> = (\<Sum>x<crf_NT sc. (\<Sum>w = s + 1..<e. ccell sc b s w * ccell sc b w e) * ?p x)"
    by (simp only: sum_distrib_right)
  also have "\<dots> = (\<Sum>w = s + 1..<e. ccell sc b s w * ccell sc b w e) * (\<Sum>x<crf_NT sc. ?p x)"
    by (simp only: sum_distrib_left)
  finally show ?thesis by (simp only: reduced_scores_sum)
qed

lemma crf_betaA_final:
  "w \<le> k \<Longrightarrow> i + w < crf_N sc \<Longrightarrow>
   crf_betaA (crf_loop sc k) b i w = ccell sc b i (i + w + 1)"
proof (induction w arbitrary: i k rule: less_induct)
  case (less w)
  show ?case
  proof (cases "w = 0")
    case True
    then show ?thesis using less.prems
      by (simp add: crf_betaA_loop_0 crf_init_def ccell_leaf)
  next
    case False
    then have w: "0 < w" by simp
    have iw: "i < crf_N sc - w" using less.prems by arith
    let ?st = "crf_loop sc (w - 1)"
    have A: "crf_betaA ?st b i k' = ccell sc b i (i + k' + 1)" if "k' < w" for k'
      by (rule less.IH) (use that less.prems in simp_all)
    have B: "crf_betaB ?st b (w + i) (crf_N sc - w + k') = ccell sc b (i + k' + 1) (i + w + 1)"
      if k': "k' < w" for k'
    proof (cases "k' = w - 1")
      case True
      have idx: "crf_N sc - w + k' = crf_N sc - 1" using True w less.prems by arith
      have "crf_betaB ?st b (w + i) (crf_N sc - 1) = crf_betaB (crf_init sc) b (w + i) (crf_N sc - 1)"
        by (rule crf_betaB_loop_last) (use less.prems w in arith)
      also have "\<dots> = reduced_scores sc b (w + i) (w + i)"
        using less.prems by (simp add: crf_init_def add.commute)
      also have "\<dots> = ccell sc b (w + i) (Suc (w + i))"
        by (rule ccell_leaf[symmetric]) (use less.prems in \<open>simp add: add.commute\<close>)
      finally show ?thesis unfolding idx using True w by (simp add: add.commute)
    next
      case False
      define u where "u = w - 1 - k'"
      have u: "0 < u" "u < crf_N sc" "u < w" "u \<le> w - 1" using False k' less.prems by (simp_all add: u_def)
      have idx: "crf_N sc - w + k' = crf_N sc - 1 - u" using k' less.prems by (simp add: u_def)
      have pos: "w + i - u = i + k' + 1" using k' by (simp add: u_def)
      have "crf_betaB ?st b (w + i) (crf_N sc - 1 - u) = crf_betaA ?st b (w + i - u) u"
        using crf_betaB_loop_mirror[of "w - 1" sc u b "w + i"] u less.prems w by simp
      also have "\<dots> = ccell sc b (w + i - u) (w + i - u + u + 1)"
        by (rule less.IH) (use u less.prems in simp_all)
      finally show ?thesis unfolding idx pos using k' by (simp add: u_def)
    qed
    have "crf_betaA (crf_loop sc k) b i w = crf_span sc ?st w b i"
      using less.prems iw by (simp add: crf_betaA_loop_pos[OF w])
    also have "\<dots> = (\<Sum>k'<w. ccell sc b i (i + k' + 1) * ccell sc b (i + k' + 1) (i + w + 1))
                      * reduced_scores sc b i (i + w)"
      unfolding crf_span_def sum_list_upt_sum atLeast0LessThan
      by (rule arg_cong[where f="\<lambda>t. t * reduced_scores sc b i (i + w)"], rule sum.cong)
         (use A B in simp_all)
    also have "(\<Sum>k'<w. ccell sc b i (i + k' + 1) * ccell sc b (i + k' + 1) (i + w + 1))
             = (\<Sum>w' = i + 1..<i + w + 1. ccell sc b i w' * ccell sc b w' (i + w + 1))"
      by (rule sum_reindex_span[where F="\<lambda>w'. ccell sc b i w' * ccell sc b w' (i + w + 1)"])
    also have "(\<Sum>w' = i + 1..<i + w + 1. ccell sc b i w' * ccell sc b w' (i + w + 1))
                 * reduced_scores sc b i (i + w) = ccell sc b i (i + w + 1)"
      using ccell_rec[of i "i + w + 1" sc b] w less.prems by simp
    finally show ?thesis .
  qed
qed

section \<open>What \<open>CKY_CRF.enumerate\<close> and \<open>CKY_CRF._dp\<close> return\<close>

lemma crf_gen_unfold:
  assumes "s + 1 \<noteq> e" and "s < crf_N sc" and "e \<le> crf_N sc" and "x < crf_NT sc"
  shows "crf_enumerate_gen sc x s e =
        concat (map (\<lambda>w.
          concat (map (\<lambda>y.
            concat (map (\<lambda>z.
              concat (map (\<lambda>r1.
                case r1 of
                  Inl e \<Rightarrow> [Inl e]
                | Inr (m1, y1) \<Rightarrow>
                    map (\<lambda>r2.
                      case r2 of
                        Inl e \<Rightarrow> Inl e
                      | Inr (m2, z1) \<Rightarrow>
                          Inr (\<lambda>b. (m1 b * m2 b) * crf_pot sc b s (e - 1) x,
                               [SpanRule x s w e] @ y1 @ z1))
                      (crf_enumerate_gen sc z w e))
                (crf_enumerate_gen sc y s w)))
              [0..<crf_NT sc]))
            [0..<crf_NT sc]))
          [s + 1..<e])"
proof -
  have idx: "crf_index sc s (e - 1) x = Inr (\<lambda>b. crf_pot sc b s (e - 1) x)"
    using assms by (simp add: crf_index_def)
  show ?thesis
    by (subst crf_enumerate_gen.simps) (simp only: assms(1) if_False idx sum.case)
qed

lemma crf_gen_events:
  assumes mult: "\<And>a b. P a \<Longrightarrow> P b \<Longrightarrow> P (a * b)"
    and pot: "\<And>b i j x. P (crf_pot sc b i j x)"
  shows "x < crf_NT sc \<Longrightarrow> s < e \<Longrightarrow> e \<le> crf_N sc \<Longrightarrow> r \<in> set (crf_enumerate_gen sc x s e) \<Longrightarrow>
         \<exists>m st. r = Inr (m, st) \<and> (\<forall>b. P (m b))"
proof (induction "e - s" arbitrary: x s e r rule: less_induct)
  case less
  show ?case
  proof (cases "s + 1 = e")
    case True
    then show ?thesis using less.prems pot
      by (simp add: crf_enumerate_gen.simps[of sc x s e] crf_index_def)
  next
    case False
    have sN: "s < crf_N sc" using less.prems by simp
    from less.prems(4) obtain w y z r1 where
      w: "w \<in> set [s + 1..<e]" and y: "y \<in> set [0..<crf_NT sc]" and z: "z \<in> set [0..<crf_NT sc]"
      and r1: "r1 \<in> set (crf_enumerate_gen sc y s w)"
      and r: "r \<in> set (case r1 of
                  Inl e \<Rightarrow> [Inl e]
                | Inr (m1, y1) \<Rightarrow>
                    map (\<lambda>r2.
                      case r2 of
                        Inl e \<Rightarrow> Inl e
                      | Inr (m2, z1) \<Rightarrow>
                          Inr (\<lambda>b. (m1 b * m2 b) * crf_pot sc b s (e - 1) x,
                               [SpanRule x s w e] @ y1 @ z1))
                      (crf_enumerate_gen sc z w e))"
      unfolding crf_gen_unfold[OF False sN less.prems(3) less.prems(1)] in_set_concat_map
      by blast
    have "\<exists>m st. r1 = Inr (m, st) \<and> (\<forall>b. P (m b))"
      by (rule less.hyps[OF _ _ _ _ r1]) (use w y less.prems in auto)
    then obtain m1 y1 where m1: "r1 = Inr (m1, y1)" "\<forall>b. P (m1 b)" by blast
    from r m1 obtain r2 where r2: "r2 \<in> set (crf_enumerate_gen sc z w e)"
      and rr: "r = (case r2 of
                        Inl e \<Rightarrow> Inl e
                      | Inr (m2, z1) \<Rightarrow>
                          Inr (\<lambda>b. (m1 b * m2 b) * crf_pot sc b s (e - 1) x,
                               SpanRule x s w e # y1 @ z1))"
      by (auto simp del: One_nat_def)
    have "\<exists>m st. r2 = Inr (m, st) \<and> (\<forall>b. P (m b))"
      by (rule less.hyps[OF _ _ _ _ r2]) (use w z less.prems in auto)
    then obtain m2 z1 where m2: "r2 = Inr (m2, z1)" "\<forall>b. P (m2 b)" by blast
    show ?thesis using rr m1 m2 mult pot by simp
  qed
qed

lemma crf_gen_all_Inr:
  assumes "x < crf_NT sc" "s < e" "e \<le> crf_N sc" "r \<in> set (crf_enumerate_gen sc x s e)"
  shows "\<exists>m st. r = Inr (m, st)"
  using crf_gen_events[where P="\<lambda>_. True", OF _ _ assms] by blast

lemma crf_gen_nonempty:
  "x < crf_NT sc \<Longrightarrow> s < e \<Longrightarrow> e \<le> crf_N sc \<Longrightarrow> crf_enumerate_gen sc x s e \<noteq> []"
proof (induction "e - s" arbitrary: x s e rule: less_induct)
  case less
  show ?case
  proof (cases "s + 1 = e")
    case True
    then show ?thesis by (subst crf_enumerate_gen.simps) simp
  next
    case False
    have sN: "s < crf_N sc" using less.prems by simp
    have l: "crf_enumerate_gen sc x s (s + 1) \<noteq> []"
      by (subst crf_enumerate_gen.simps) simp
    then obtain r1 where r1: "r1 \<in> set (crf_enumerate_gen sc x s (s + 1))"
      by (cases "crf_enumerate_gen sc x s (s + 1)") auto
    from crf_gen_all_Inr[OF less.prems(1) _ _ r1] less.prems obtain m1 y1 where
      m1: "r1 = Inr (m1, y1)" by auto
    have "crf_enumerate_gen sc x (s + 1) e \<noteq> []"
      by (rule less.hyps) (use False less.prems in auto)
    then obtain r2 where r2: "r2 \<in> set (crf_enumerate_gen sc x (s + 1) e)"
      by (cases "crf_enumerate_gen sc x (s + 1) e") auto
    have w: "s + 1 \<in> set [s + 1..<e]" using False less.prems by simp
    have x: "x \<in> set [0..<crf_NT sc]" using less.prems by simp
    have "(case r2 of
                        Inl e \<Rightarrow> Inl e
                      | Inr (m2, z1) \<Rightarrow>
                          Inr (\<lambda>b. (m1 b * m2 b) * crf_pot sc b s (e - 1) x,
                               [SpanRule x s (s + 1) e] @ y1 @ z1))
       \<in> set (case r1 of
                  Inl e \<Rightarrow> [Inl e]
                | Inr (m1, y1) \<Rightarrow>
                    map (\<lambda>r2.
                      case r2 of
                        Inl e \<Rightarrow> Inl e
                      | Inr (m2, z1) \<Rightarrow>
                          Inr (\<lambda>b. (m1 b * m2 b) * crf_pot sc b s (e - 1) x,
                               [SpanRule x s (s + 1) e] @ y1 @ z1))
                      (crf_enumerate_gen sc x (s + 1) e))"
      unfolding m1 by (simp only: sum.case prod.case set_map) (rule imageI[OF r2])
    then have "\<exists>r. r \<in> set (crf_enumerate_gen sc x s e)"
      unfolding crf_gen_unfold[OF False sN less.prems(3) less.prems(1)] in_set_concat_map
      using w x r1 by blast
    then show ?thesis by auto
  qed
qed

lemma cky_crf_enumerate_value:
  assumes N: "1 \<le> crf_N sc" and NT: "1 \<le> crf_NT sc"
  shows "cky_crf_enumerate sc = Inr (map (\<lambda>b. ccell sc b 0 (crf_N sc)) [0..<crf_batch sc])"
    and "\<exists>ls. crf_enumerate_scores sc = Inr ls \<and> ls \<noteq> [] \<and>
           (\<forall>b. sum_list (map (\<lambda>s. s b) ls) = ccell sc b 0 (crf_N sc))"
proof -
  define F where "F r = (case r of Inl e \<Rightarrow> Inl e | Inr (s, _) \<Rightarrow> Inr s)"
    for r :: "error + ((nat \<Rightarrow> 'a) \<times> crf_node list)"
  define L where "L = concat (map (\<lambda>nt. map F (crf_enumerate_gen sc nt 0 (crf_N sc)))
                              [0..<crf_NT sc])"
  have es: "crf_enumerate_scores sc = collect L"
    unfolding crf_enumerate_scores_def L_def F_def by (rule refl)
  have inr: "\<exists>m st. r = Inr (m, st)"
    if "nt < crf_NT sc" "r \<in> set (crf_enumerate_gen sc nt 0 (crf_N sc))" for nt r
    by (rule crf_gen_all_Inr[OF that(1) _ _ that(2)]) (use N in simp_all)
  have allInr: "\<forall>r\<in>set L. \<exists>v. r = Inr v"
  proof
    fix r assume "r \<in> set L"
    then obtain nt r0 where nt: "nt < crf_NT sc"
      and r0: "r0 \<in> set (crf_enumerate_gen sc nt 0 (crf_N sc))" and r: "r = F r0"
      unfolding L_def by auto
    from inr[OF nt r0] obtain m st where "r0 = Inr (m, st)" by blast
    then show "\<exists>v. r = Inr v" using r by (simp add: F_def)
  qed
  have val: "crf_enumerate_scores sc = Inr (map projr L)"
    unfolding es by (rule collect_all_Inr[OF allInr])
  have ne: "map projr L \<noteq> []"
  proof -
    have "crf_enumerate_gen sc 0 0 (crf_N sc) \<noteq> []"
      by (rule crf_gen_nonempty) (use N NT in simp_all)
    then obtain r where "r \<in> set (crf_enumerate_gen sc 0 0 (crf_N sc))"
      by (cases "crf_enumerate_gen sc 0 0 (crf_N sc)") auto
    then have "F r \<in> set L" unfolding L_def using NT by auto
    then show ?thesis by auto
  qed
  have sum: "sum_list (map (\<lambda>s. s b) (map projr L)) = ccell sc b 0 (crf_N sc)" for b
  proof -
    have per: "sum_list (map (\<lambda>r. projr (F r) b) (crf_enumerate_gen sc nt 0 (crf_N sc)))
                = cgsum sc b nt 0 (crf_N sc)" if nt: "nt \<in> {..<crf_NT sc}" for nt
    proof -
      have "map (\<lambda>r. projr (F r) b) (crf_enumerate_gen sc nt 0 (crf_N sc))
              = map (ev_val b) (crf_enumerate_gen sc nt 0 (crf_N sc))"
      proof (rule map_cong[OF refl])
        fix r assume "r \<in> set (crf_enumerate_gen sc nt 0 (crf_N sc))"
        from inr[OF _ this] nt obtain m st where "r = Inr (m, st)" by auto
        then show "projr (F r) b = ev_val b r" by (simp add: F_def)
      qed
      then show ?thesis by (simp only: cgsum_def)
    qed
    have "sum_list (map (\<lambda>s. s b) (map projr L))
            = sum_list (map (\<lambda>nt. sum_list (map (\<lambda>r. projr (F r) b)
                  (crf_enumerate_gen sc nt 0 (crf_N sc)))) [0..<crf_NT sc])"
      unfolding L_def by (simp add: map_concat o_def sum_list_concat_map del: upt_Suc)
    also have "\<dots> = (\<Sum>nt<crf_NT sc. sum_list (map (\<lambda>r. projr (F r) b)
                  (crf_enumerate_gen sc nt 0 (crf_N sc))))"
      by (simp only: sum_list_upt_sum atLeast0LessThan)
    also have "\<dots> = (\<Sum>nt<crf_NT sc. cgsum sc b nt 0 (crf_N sc))"
      by (rule sum.cong[OF refl]) (rule per)
    finally show ?thesis by (simp only: ccell_def)
  qed
  show "cky_crf_enumerate sc = Inr (map (\<lambda>b. ccell sc b 0 (crf_N sc)) [0..<crf_batch sc])"
    unfolding cky_crf_enumerate_def val using ne sum by (simp del: upt_Suc)
  show "\<exists>ls. crf_enumerate_scores sc = Inr ls \<and> ls \<noteq> [] \<and>
           (\<forall>b. sum_list (map (\<lambda>s. s b) ls) = ccell sc b 0 (crf_N sc))"
    using val ne sum by blast
qed

lemma crf_enumerate_scores_pred:
  assumes N: "1 \<le> crf_N sc"
    and mult: "\<And>a b. P a \<Longrightarrow> P b \<Longrightarrow> P (a * b)"
    and pot: "\<And>b i j x. P (crf_pot sc b i j x)"
    and ds: "crf_enumerate_scores sc = Inr ds" and d: "d \<in> set ds"
  shows "P (d b)"
proof -
  from collect_Inr_map[OF ds[unfolded crf_enumerate_scores_def]] d
  have "Inr d \<in> set (concat (map (\<lambda>nt.
              map (\<lambda>r. case r of
                          Inl e \<Rightarrow> Inl e
                        | Inr (s, _) \<Rightarrow> Inr s)
                  (crf_enumerate_gen sc nt 0 (crf_N sc)))
              [0..<crf_NT sc]))"
    by simp
  then obtain nt r0 where nt: "nt < crf_NT sc"
    and r0: "r0 \<in> set (crf_enumerate_gen sc nt 0 (crf_N sc))"
    and eq: "Inr d = (case r0 of Inl e \<Rightarrow> Inl e | Inr (s, _) \<Rightarrow> Inr s)"
    by (auto simp del: upt_Suc)
  from crf_gen_events[of P sc nt 0 "crf_N sc" r0, OF mult pot nt _ _ r0] N
  obtain m st where "r0 = Inr (m, st)" "\<forall>b. P (m b)" by auto
  then show ?thesis using eq by simp
qed

lemma collect_map_Inr: "collect (map (\<lambda>k. Inr (f k)) xs) = Inr (map f xs)"
  by (induction xs) simp_all

lemma cky_crf_dp_full:
  assumes N: "1 \<le> crf_N sc"
  shows "cky_crf_dp sc None =
           Inr (map (\<lambda>b. ccell sc b 0 (crf_N sc)) [0..<crf_batch sc], crf_loop sc (crf_N sc - 1))"
proof -
  let ?st = "crf_loop sc (crf_N sc - 1)"
  let ?ls = "replicate (crf_batch sc) (int (crf_N sc))"
  have idx: "py_index (crf_N sc) (int (crf_N sc) - 1) = Inr (crf_N sc - 1)"
    using N by (simp add: py_index_def Let_def nat_diff_distrib')
  have cellv: "crf_betaA ?st b 0 (crf_N sc - 1) = ccell sc b 0 (crf_N sc)" for b
    using crf_betaA_final[of "crf_N sc - 1" "crf_N sc - 1" 0 sc b] N by simp
  let ?f = "\<lambda>k. case py_index (crf_N sc)
                      ((if crf_batch sc = 1 then ?ls ! 0 else ?ls ! k) - 1) of
                 Inl e \<Rightarrow> (Inl e :: error + 'a)
               | Inr w \<Rightarrow> Inr (crf_betaA ?st (if crf_batch sc = 1 then 0 else k) 0 w)"
  have mapeq: "map ?f [0..<crf_batch sc]
       = map (\<lambda>k. Inr (ccell sc k 0 (crf_N sc))) [0..<crf_batch sc]"
  proof (rule map_cong[OF refl])
    fix k assume "k \<in> set [0..<crf_batch sc]"
    then show "?f k = Inr (ccell sc k 0 (crf_N sc))"
      using idx cellv by auto
  qed
  have "crf_read sc ?st ?ls = collect (map ?f [0..<crf_batch sc])"
    unfolding crf_read_def Let_def length_replicate by simp
  also have "\<dots> = Inr (map (\<lambda>b. ccell sc b 0 (crf_N sc)) [0..<crf_batch sc])"
    unfolding mapeq by (rule collect_map_Inr)
  finally have "crf_read sc ?st ?ls = Inr (map (\<lambda>b. ccell sc b 0 (crf_N sc)) [0..<crf_batch sc])" .
  then show ?thesis using N by (simp add: cky_crf_dp_def Let_def del: upt_Suc)
qed

lemma crf_log_convert_dims [simp]:
  "crf_batch (crf_log_convert sc) = crf_batch sc" "crf_N (crf_log_convert sc) = crf_N sc"
  "crf_NT (crf_log_convert sc) = crf_NT sc"
  by (simp_all add: crf_log_convert_def)

lemma crf_max_convert_dims [simp]:
  "crf_batch (crf_max_convert sc) = crf_batch sc" "crf_N (crf_max_convert sc) = crf_N sc"
  "crf_NT (crf_max_convert sc) = crf_NT sc"
  by (simp_all add: crf_max_convert_def)

lemma crf_log_total:
  fixes sc :: "real crf_scores"
  assumes "1 \<le> crf_N sc" "1 \<le> crf_NT sc"
  shows "\<exists>v st ds. cky_crf_dp (crf_log_convert sc) None = Inr (v, st)
            \<and> cky_crf_enumerate (crf_log_convert sc) = Inr v
            \<and> crf_enumerate_scores (crf_log_convert sc) = Inr ds \<and> ds \<noteq> []
            \<and> (\<forall>b<crf_batch sc. \<exists>rs. map (\<lambda>d. d b) ds = map LogVal rs
                    \<and> v ! b = LogVal (ln (\<Sum>r\<leftarrow>rs. exp r)))"
proof -
  let ?sc = "crf_log_convert sc"
  let ?v = "map (\<lambda>b. ccell ?sc b 0 (crf_N ?sc)) [0..<crf_batch ?sc]"
  have dp: "cky_crf_dp ?sc None = Inr (?v, crf_loop ?sc (crf_N ?sc - 1))"
    by (rule cky_crf_dp_full) (use assms in simp)
  have en: "cky_crf_enumerate ?sc = Inr ?v"
    by (rule cky_crf_enumerate_value(1)) (use assms in simp_all)
  from cky_crf_enumerate_value(2)[of ?sc] assms obtain ds where
    ds: "crf_enumerate_scores ?sc = Inr ds" "ds \<noteq> []"
    and sums: "\<And>b. sum_list (map (\<lambda>s. s b) ds) = ccell ?sc b 0 (crf_N ?sc)"
    by auto
  have fin: "d b \<noteq> LogZero" if "d \<in> set ds" for d b
  proof (rule crf_enumerate_scores_pred[where P="\<lambda>a. a \<noteq> LogZero" and sc="?sc", OF _ _ _ ds(1) that])
    show "1 \<le> crf_N ?sc" using assms by simp
    show "\<And>a b. a \<noteq> LogZero \<Longrightarrow> b \<noteq> LogZero \<Longrightarrow> a * b \<noteq> LogZero"
      by (case_tac a; case_tac b) simp_all
  qed (simp_all add: crf_log_convert_def)
  have per: "\<exists>rs. map (\<lambda>d. d b) ds = map LogVal rs \<and> ?v ! b = LogVal (ln (\<Sum>r\<leftarrow>rs. exp r))"
    if b: "b < crf_batch sc" for b
  proof -
    define rs where "rs = map (\<lambda>d. case d b of LogVal r \<Rightarrow> r | LogZero \<Rightarrow> 0) ds"
    have m: "map (\<lambda>d. d b) ds = map LogVal rs"
      unfolding rs_def using fin[of _ b] by (auto split: logsr.splits)
    have "rs \<noteq> []" using ds(2) by (simp add: rs_def)
    then have "sum_list (map LogVal rs) = LogVal (ln (\<Sum>r\<leftarrow>rs. exp r))"
      by (rule log_sum_list)
    moreover have "?v ! b = sum_list (map (\<lambda>s. s b) ds)"
      using b by (simp add: sums del: upt_Suc)
    ultimately show ?thesis using m by auto
  qed
  show ?thesis using dp en ds per by blast
qed

lemma crf_max_total:
  fixes sc :: "real crf_scores"
  assumes "1 \<le> crf_N sc" "1 \<le> crf_NT sc"
  shows "\<exists>v st ds. cky_crf_dp (crf_max_convert sc) None = Inr (v, st)
            \<and> cky_crf_enumerate (crf_max_convert sc) = Inr v
            \<and> crf_enumerate_scores (crf_max_convert sc) = Inr ds \<and> ds \<noteq> []
            \<and> (\<forall>b<crf_batch sc. \<exists>rs. map (\<lambda>d. d b) ds = map MaxVal rs
                    \<and> v ! b = MaxVal (Max (set rs)))"
proof -
  let ?sc = "crf_max_convert sc"
  let ?v = "map (\<lambda>b. ccell ?sc b 0 (crf_N ?sc)) [0..<crf_batch ?sc]"
  have dp: "cky_crf_dp ?sc None = Inr (?v, crf_loop ?sc (crf_N ?sc - 1))"
    by (rule cky_crf_dp_full) (use assms in simp)
  have en: "cky_crf_enumerate ?sc = Inr ?v"
    by (rule cky_crf_enumerate_value(1)) (use assms in simp_all)
  from cky_crf_enumerate_value(2)[of ?sc] assms obtain ds where
    ds: "crf_enumerate_scores ?sc = Inr ds" "ds \<noteq> []"
    and sums: "\<And>b. sum_list (map (\<lambda>s. s b) ds) = ccell ?sc b 0 (crf_N ?sc)"
    by auto
  have fin: "d b \<noteq> MaxZero" if "d \<in> set ds" for d b
  proof (rule crf_enumerate_scores_pred[where P="\<lambda>a. a \<noteq> MaxZero" and sc="?sc", OF _ _ _ ds(1) that])
    show "1 \<le> crf_N ?sc" using assms by simp
    show "\<And>a b. a \<noteq> MaxZero \<Longrightarrow> b \<noteq> MaxZero \<Longrightarrow> a * b \<noteq> MaxZero"
      by (case_tac a; case_tac b) simp_all
  qed (simp_all add: crf_max_convert_def)
  have per: "\<exists>rs. map (\<lambda>d. d b) ds = map MaxVal rs \<and> ?v ! b = MaxVal (Max (set rs))"
    if b: "b < crf_batch sc" for b
  proof -
    define rs where "rs = map (\<lambda>d. case d b of MaxVal r \<Rightarrow> r | MaxZero \<Rightarrow> 0) ds"
    have m: "map (\<lambda>d. d b) ds = map MaxVal rs"
      unfolding rs_def using fin[of _ b] by (auto split: maxsr.splits)
    have "rs \<noteq> []" using ds(2) by (simp add: rs_def)
    then have "sum_list (map MaxVal rs) = MaxVal (Max (set rs))"
      by (rule max_sum_list)
    moreover have "?v ! b = sum_list (map (\<lambda>s. s b) ds)"
      using b by (simp add: sums del: upt_Suc)
    ultimately show ?thesis using m by auto
  qed
  show ?thesis using dp en ds per by blast
qed

section \<open>The search for a split in \<open>CKY.to_parts\<close>\<close>

lemma search_right_None:
  "search_right k a w rs = None \<longleftrightarrow>
     (\<forall>(C, k2, bs)\<in>set rs. \<not> (k2 = k + 1 \<and> a + bs = w))"
  by (induction k a w rs rule: search_right.induct) (auto split: if_splits)

lemma split_search_fold_None:
  "fold (\<lambda>(B_p, k, a_span) acc.
             case search_right k a_span w rs of
               None \<Rightarrow> acc
             | Some C_p \<Rightarrow> Some (B_p, C_p)) ls acc = None
   \<longleftrightarrow> acc = None \<and> (\<forall>(B, k, a)\<in>set ls. search_right k a w rs = None)"
  by (induction ls arbitrary: acc) (auto split: option.splits)

lemma split_search_None:
  "split_search ls rs w = None \<longleftrightarrow> (\<forall>(B, k, a)\<in>set ls. search_right k a w rs = None)"
  by (simp add: split_search_def split_search_fold_None)

lemma in_cover:
  "(i, j, A) \<in> set (cover sp b) \<longleftrightarrow>
     i < sp_N sp \<and> j < sp_N sp \<and> A < sp_S sp \<and> sp_at sp b i j A \<noteq> 0"
  by (auto simp: cover_def)

lemma in_left_of:
  "(A, k, a) \<in> set (left_of cov i) \<longleftrightarrow> (i, k, A) \<in> set cov \<and> a = int k - int i + 1"
  by (auto simp: left_of_def)

lemma in_right_of:
  "(C, k2, bs) \<in> set (right_of cov j) \<longleftrightarrow> (k2, j, C) \<in> set cov \<and> bs = int j - int k2 + 1"
  by (auto simp: right_of_def)

lemma has_split_iff:
  "has_split sp b i j \<longleftrightarrow>
     (\<exists>k B C. i \<le> k \<and> k < j \<and> B < sp_S sp \<and> C < sp_S sp
              \<and> sp_at sp b i k B \<noteq> 0 \<and> sp_at sp b (k + 1) j C \<noteq> 0)"
  unfolding has_split_def list_ex_iff Bex_def by simp blast

lemma splitless_iff:
  "splitless sp b \<longleftrightarrow>
     (\<exists>i j A. i < j \<and> j < sp_N sp \<and> A < sp_S sp \<and> sp_at sp b i j A \<noteq> 0
              \<and> \<not> has_split sp b i j)"
  unfolding splitless_def list_ex_iff Bex_def by simp (meson less_trans)

lemma split_search_has_split:
  assumes upper: "\<And>i j A. i < sp_N sp \<Longrightarrow> j < sp_N sp \<Longrightarrow> A < sp_S sp \<Longrightarrow>
                    sp_at sp b i j A \<noteq> 0 \<Longrightarrow> i \<le> j"
    and ij: "i < j" "j < sp_N sp"
  shows "split_search (left_of (cover sp b) i) (right_of (cover sp b) j) (int j - int i + 1) = None
           \<longleftrightarrow> \<not> has_split sp b i j"
proof
  assume none: "split_search (left_of (cover sp b) i) (right_of (cover sp b) j)
                  (int j - int i + 1) = None"
  show "\<not> has_split sp b i j"
  proof
    assume "has_split sp b i j"
    then obtain k B C where k: "i \<le> k" "k < j" and B: "B < sp_S sp" and C: "C < sp_S sp"
      and nz: "sp_at sp b i k B \<noteq> 0" "sp_at sp b (k + 1) j C \<noteq> 0"
      unfolding has_split_iff by blast
    have l: "(B, k, int k - int i + 1) \<in> set (left_of (cover sp b) i)"
      using k ij B nz by (simp add: in_left_of in_cover)
    have r: "(C, k + 1, int j - int (k + 1) + 1) \<in> set (right_of (cover sp b) j)"
      using k ij C nz by (simp add: in_right_of in_cover)
    from none l have "search_right k (int k - int i + 1) (int j - int i + 1)
                        (right_of (cover sp b) j) = None"
      unfolding split_search_None by blast
    with r show False unfolding search_right_None by auto
  qed
next
  assume nosplit: "\<not> has_split sp b i j"
  show "split_search (left_of (cover sp b) i) (right_of (cover sp b) j) (int j - int i + 1) = None"
    unfolding split_search_None search_right_None
  proof (clarify)
    fix B k a C k2 bs
    assume l: "(B, k, a) \<in> set (left_of (cover sp b) i)"
      and r: "(C, k + 1, bs) \<in> set (right_of (cover sp b) j)"
    from l have lk: "k < sp_N sp" "B < sp_S sp" "sp_at sp b i k B \<noteq> 0" "i < sp_N sp"
      by (simp_all add: in_left_of in_cover)
    from r have rk: "k + 1 < sp_N sp" "C < sp_S sp" "sp_at sp b (k + 1) j C \<noteq> 0"
      by (simp_all add: in_right_of in_cover)
    have "i \<le> k" using upper[OF lk(4) lk(1) lk(2) lk(3)] .
    moreover have "k + 1 \<le> j" using upper[OF rk(1) ij(2) rk(2) rk(3)] .
    ultimately have "has_split sp b i j"
      unfolding has_split_iff using lk rk by (intro exI[of _ k] exI[of _ B] exI[of _ C]) simp
    with nosplit show False by simp
  qed
qed

lemma fold_err_bad:
  assumes "\<And>x s. x \<in> set xs \<Longrightarrow> bad x \<Longrightarrow> f x s = Inl E"
    and "\<And>x s. x \<in> set xs \<Longrightarrow> \<not> bad x \<Longrightarrow> \<exists>s'. f x s = Inr s'"
  shows "(\<exists>x\<in>set xs. bad x) \<Longrightarrow> fold_err f xs s = Inl E"
    and "\<not> (\<exists>x\<in>set xs. bad x) \<Longrightarrow> \<exists>s'. fold_err f xs s = Inr s'"
  using assms
proof (induction xs arbitrary: s)
  case Nil
  { case 1 then show ?case by simp }
  { case 2 then show ?case by simp }
next
  case (Cons x xs)
  { case 1
    show ?case
    proof (cases "bad x")
      case True
      then show ?thesis using "1.prems"(2)[of x s] by simp
    next
      case False
      then obtain s' where s': "f x s = Inr s'" using "1.prems"(3)[of x s] by auto
      have "\<exists>x\<in>set xs. bad x" using "1.prems"(1) False by auto
      then have "fold_err f xs s' = Inl E"
        by (rule Cons.IH(1)) (use "1.prems" in auto)
      then show ?thesis using s' by simp
    qed }
  { case 2
    then have nb: "\<not> bad x" "\<not> (\<exists>x\<in>set xs. bad x)" by auto
    obtain s' where s': "f x s = Inr s'" using "2.prems"(3)[of x s] nb by auto
    have "\<exists>s''. fold_err f xs s' = Inr s''"
      by (rule Cons.IH(2)[OF nb(2)]) (use "2.prems" in auto)
    then show ?case using s' by simp }
qed

lemma cover_loop:
  assumes wt: "\<And>i j A. i < sp_N sp \<Longrightarrow> j < sp_N sp \<Longrightarrow> A < sp_S sp \<Longrightarrow>
                 sp_at sp b i j A \<noteq> 0 \<Longrightarrow> i \<le> j \<and> (i < j \<longrightarrow> A < NT)"
  shows "splitless sp b \<Longrightarrow>
           fold_err (entry_step NT b (cover sp b)) (cover sp b) ru = Inl AssertSplit"
    and "\<not> splitless sp b \<Longrightarrow>
           \<exists>ru'. fold_err (entry_step NT b (cover sp b)) (cover sp b) ru = Inr ru'"
proof -
  define bad where "bad e = (case e of (i, j, A) \<Rightarrow> i < j \<and> \<not> has_split sp b i j)"
    for e :: "nat \<times> nat \<times> nat"
  have upper: "\<And>i j A. i < sp_N sp \<Longrightarrow> j < sp_N sp \<Longrightarrow> A < sp_S sp \<Longrightarrow>
                    sp_at sp b i j A \<noteq> 0 \<Longrightarrow> i \<le> j"
    using wt by blast
  have isbad: "entry_step NT b (cover sp b) e r = Inl AssertSplit"
    if "e \<in> set (cover sp b)" "bad e" for e r
  proof -
    obtain i j A where e: "e = (i, j, A)" by (cases e)
    from that e have ij: "i < j" "j < sp_N sp" and ns: "\<not> has_split sp b i j"
      by (simp_all add: bad_def in_cover)
    have "split_search (left_of (cover sp b) i) (right_of (cover sp b) j) (int j - int i + 1) = None"
      using split_search_has_split[OF upper ij] ns by simp
    then show ?thesis using ij by (simp add: entry_step_def e)
  qed
  have notbad: "\<exists>r'. entry_step NT b (cover sp b) e r = Inr r'"
    if "e \<in> set (cover sp b)" "\<not> bad e" for e r
  proof -
    obtain i j A where e: "e = (i, j, A)" by (cases e)
    from that e have c: "i < sp_N sp" "j < sp_N sp" "A < sp_S sp" "sp_at sp b i j A \<noteq> 0"
      by (simp_all add: in_cover)
    show ?thesis
    proof (cases "i < j")
      case True
      then have hs: "has_split sp b i j" using that(2) e by (simp add: bad_def)
      have "split_search (left_of (cover sp b) i) (right_of (cover sp b) j) (int j - int i + 1)
              \<noteq> None"
        using split_search_has_split[OF upper True c(2)] hs by simp
      then obtain B C where "split_search (left_of (cover sp b) i) (right_of (cover sp b) j)
              (int j - int i + 1) = Some (B, C)" by auto
      moreover have "A < NT" using wt[OF c] True by simp
      ultimately show ?thesis using True by (simp add: entry_step_def e)
    next
      case False
      then show ?thesis by (simp add: entry_step_def e Let_def)
    qed
  qed
  have eq: "(\<exists>e\<in>set (cover sp b). bad e) \<longleftrightarrow> splitless sp b"
  proof
    assume "\<exists>e\<in>set (cover sp b). bad e"
    then obtain i j A where "(i, j, A) \<in> set (cover sp b)" "bad (i, j, A)" by auto
    then show "splitless sp b" unfolding splitless_iff by (auto simp: in_cover bad_def)
  next
    assume "splitless sp b"
    then obtain i j A where "i < j" "j < sp_N sp" "A < sp_S sp" "sp_at sp b i j A \<noteq> 0"
      "\<not> has_split sp b i j" unfolding splitless_iff by blast
    then have "(i, j, A) \<in> set (cover sp b)" "bad (i, j, A)"
      by (simp_all add: in_cover bad_def)
    then show "\<exists>e\<in>set (cover sp b). bad e" by blast
  qed
  show "splitless sp b \<Longrightarrow>
           fold_err (entry_step NT b (cover sp b)) (cover sp b) ru = Inl AssertSplit"
    using fold_err_bad(1)[of "cover sp b" bad "entry_step NT b (cover sp b)" AssertSplit ru]
      isbad notbad eq by blast
  show "\<not> splitless sp b \<Longrightarrow>
           \<exists>ru'. fold_err (entry_step NT b (cover sp b)) (cover sp b) ru = Inr ru'"
    using fold_err_bad(2)[of "cover sp b" bad "entry_step NT b (cover sp b)" AssertSplit ru]
      isbad notbad eq by blast
qed

lemma py_index_length0:
  "1 \<le> n \<Longrightarrow> 0 \<le> l \<Longrightarrow> l \<le> int n \<Longrightarrow> \<exists>w. py_index n (l - 1) = Inr w"
  by (auto simp: py_index_def Let_def)

lemma batch_step_cases:
  assumes wt: "\<And>i j A. i < sp_N sp \<Longrightarrow> j < sp_N sp \<Longrightarrow> A < sp_S sp \<Longrightarrow>
                 sp_at sp b i j A \<noteq> 0 \<Longrightarrow> i \<le> j \<and> (i < j \<longrightarrow> A < NT)"
    and N: "1 \<le> sp_N sp" and b: "b < length ls"
    and l: "0 \<le> ls ! b" "ls ! b \<le> int (sp_N sp)"
  shows "splitless sp b \<Longrightarrow> batch_step sp NT T (Some ls) b st = Inl AssertSplit"
    and "\<not> splitless sp b \<Longrightarrow> \<exists>st'. batch_step sp NT T (Some ls) b st = Inr st'"
proof -
  obtain tm ru ro where st: "st = (tm, ru, ro)" by (cases st)
  obtain w where w: "py_index (sp_N sp) (ls ! b - 1) = Inr w"
    using py_index_length0[OF N l] by blast
  show "splitless sp b \<Longrightarrow> batch_step sp NT T (Some ls) b st = Inl AssertSplit"
    using cover_loop(1)[OF wt] b l w by (simp add: batch_step_def st Let_def)
  show "\<not> splitless sp b \<Longrightarrow> \<exists>st'. batch_step sp NT T (Some ls) b st = Inr st'"
  proof -
    assume "\<not> splitless sp b"
    from cover_loop(2)[OF wt this] obtain ru' where
      "fold_err (entry_step NT b (cover sp b)) (cover sp b) ru = Inr ru'" by blast
    then show ?thesis using b l w by (simp add: batch_step_def st Let_def)
  qed
qed

lemma to_parts_cases:
  assumes S: "sp_S sp = NT + T" and N: "1 \<le> sp_N sp" and len: "length ls = sp_batch sp"
    and valid: "\<forall>l\<in>set ls. 0 \<le> l \<and> l \<le> int (sp_N sp)"
    and wt: "well_typed NT sp"
  shows "(\<exists>b<sp_batch sp. splitless sp b) \<Longrightarrow> to_parts sp (NT, T) (Some ls) = Inl AssertSplit"
    and "\<not> (\<exists>b<sp_batch sp. splitless sp b) \<Longrightarrow> \<exists>p. to_parts sp (NT, T) (Some ls) = Inr p"
proof -
  have wtb: "i \<le> j \<and> (i < j \<longrightarrow> A < NT)"
    if "b < sp_batch sp" "i < sp_N sp" "j < sp_N sp" "A < sp_S sp" "sp_at sp b i j A \<noteq> 0"
    for b i j A
    using wt that unfolding well_typed_def by blast
  have lb: "0 \<le> ls ! b \<and> ls ! b \<le> int (sp_N sp)" if "b < sp_batch sp" for b
    using valid len that by (simp add: all_set_conv_all_nth)
  have isbad: "batch_step sp NT T (Some ls) b st = Inl AssertSplit"
    if "b \<in> set [0..<sp_batch sp]" "splitless sp b" for b st
  proof -
    have bb: "b < sp_batch sp" using that(1) by simp
    show ?thesis
      by (rule batch_step_cases(1)[OF _ N _ _ _ that(2)]) (use wtb[OF bb] lb[OF bb] bb len in auto)
  qed
  have notbad: "\<exists>st'. batch_step sp NT T (Some ls) b st = Inr st'"
    if "b \<in> set [0..<sp_batch sp]" "\<not> splitless sp b" for b st
  proof -
    have bb: "b < sp_batch sp" using that(1) by simp
    show ?thesis
      by (rule batch_step_cases(2)[OF _ N _ _ _ that(2)]) (use wtb[OF bb] lb[OF bb] bb len in auto)
  qed
  have eq: "(\<exists>b\<in>set [0..<sp_batch sp]. splitless sp b) \<longleftrightarrow> (\<exists>b<sp_batch sp. splitless sp b)"
    by auto
  let ?init = "(\<lambda>b i t. 0, \<lambda>b A B C. 0, \<lambda>b x. 0) :: parts_state"
  show "(\<exists>b<sp_batch sp. splitless sp b) \<Longrightarrow> to_parts sp (NT, T) (Some ls) = Inl AssertSplit"
  proof -
    assume "\<exists>b<sp_batch sp. splitless sp b"
    then have "fold_err (batch_step sp NT T (Some ls)) [0..<sp_batch sp] ?init = Inl AssertSplit"
      using fold_err_bad(1)[of "[0..<sp_batch sp]" "splitless sp" "batch_step sp NT T (Some ls)"
              AssertSplit ?init] isbad notbad eq by blast
    then show ?thesis using S by (simp add: to_parts_def)
  qed
  show "\<not> (\<exists>b<sp_batch sp. splitless sp b) \<Longrightarrow> \<exists>p. to_parts sp (NT, T) (Some ls) = Inr p"
  proof -
    assume "\<not> (\<exists>b<sp_batch sp. splitless sp b)"
    then have "\<exists>st'. fold_err (batch_step sp NT T (Some ls)) [0..<sp_batch sp] ?init = Inr st'"
      using fold_err_bad(2)[of "[0..<sp_batch sp]" "splitless sp" "batch_step sp NT T (Some ls)"
              AssertSplit ?init] isbad notbad eq by blast
    then obtain st' where
      "fold_err (batch_step sp NT T (Some ls)) [0..<sp_batch sp] ?init = Inr st'" by blast
    then show ?thesis using S by (cases st') (simp add: to_parts_def)
  qed
qed

section \<open>Labelings of binary trees\<close>

lemma yield_len_pos: "1 \<le> yield_len t"
  by (induction t) simp_all

lemma tree_spans_range:
  "tree_ok NT T t \<Longrightarrow> (i, j, x) \<in> set (tree_spans NT t s) \<Longrightarrow>
   s \<le> i \<and> i \<le> j \<and> j \<le> s + yield_len t - 1 \<and> x < NT + T \<and> (i < j \<longrightarrow> x < NT)"
proof (induction t arbitrary: s)
  case (PLeaf t)
  then show ?case by simp
next
  case (PNode A l r)
  have pl: "1 \<le> yield_len l" and pr: "1 \<le> yield_len r" by (rule yield_len_pos)+
  from PNode.prems(2) consider
    "(i, j, x) = (s, s + yield_len l + yield_len r - 1, A)"
    | "(i, j, x) \<in> set (tree_spans NT l s)"
    | "(i, j, x) \<in> set (tree_spans NT r (s + yield_len l))"
    by auto
  then show ?case
  proof cases
    case 1
    then show ?thesis using PNode.prems(1) pl pr by auto
  next
    case 2
    from PNode.IH(1)[OF _ 2] PNode.prems(1) show ?thesis using pr by auto
  next
    case 3
    from PNode.IH(2)[OF _ 3] PNode.prems(1) show ?thesis using pl by auto
  qed
qed

lemma tree_spans_root:
  "tree_ok NT T t \<Longrightarrow> \<exists>x<NT + T. (s, s + yield_len t - 1, x) \<in> set (tree_spans NT t s)"
proof (cases t)
  case (PLeaf u)
  assume "tree_ok NT T t"
  then show ?thesis using PLeaf by simp
next
  case (PNode A l r)
  assume "tree_ok NT T t"
  then have "A < NT + T" using PNode by simp
  moreover have "(s, s + yield_len t - 1, A) \<in> set (tree_spans NT t s)"
    using PNode by (simp add: add.assoc)
  ultimately show ?thesis by blast
qed

lemma tree_spans_split:
  "tree_ok NT T t \<Longrightarrow> (i, j, x) \<in> set (tree_spans NT t s) \<Longrightarrow> i < j \<Longrightarrow>
   \<exists>k B C. i \<le> k \<and> k < j \<and> B < NT + T \<and> C < NT + T
          \<and> (i, k, B) \<in> set (tree_spans NT t s) \<and> (k + 1, j, C) \<in> set (tree_spans NT t s)"
proof (induction t arbitrary: s)
  case (PLeaf t)
  then show ?case by simp
next
  case (PNode A l r)
  have pl: "1 \<le> yield_len l" and pr: "1 \<le> yield_len r" by (rule yield_len_pos)+
  have okl: "tree_ok NT T l" and okr: "tree_ok NT T r" using PNode.prems(1) by simp_all
  from PNode.prems(2) consider
    "(i, j, x) = (s, s + yield_len l + yield_len r - 1, A)"
    | "(i, j, x) \<in> set (tree_spans NT l s)"
    | "(i, j, x) \<in> set (tree_spans NT r (s + yield_len l))"
    by auto
  then show ?case
  proof cases
    case 1
    from tree_spans_root[OF okl, of s] obtain B where
      B: "B < NT + T" "(s, s + yield_len l - 1, B) \<in> set (tree_spans NT l s)" by blast
    from tree_spans_root[OF okr, of "s + yield_len l"] obtain C where
      C: "C < NT + T" "(s + yield_len l, s + yield_len l + yield_len r - 1, C)
                         \<in> set (tree_spans NT r (s + yield_len l))" by blast
    have k1: "s + yield_len l - 1 + 1 = s + yield_len l" using pl by simp
    show ?thesis
      apply (rule exI[of _ "s + yield_len l - 1"], rule exI[of _ B], rule exI[of _ C])
      using 1 B C pl pr k1 by auto
  next
    case 2
    from PNode.IH(1)[OF okl 2 PNode.prems(3)] show ?thesis by auto
  next
    case 3
    from PNode.IH(2)[OF okr 3 PNode.prems(3)] show ?thesis by auto
  qed
qed

lemma encodes_well_typed:
  assumes S: "sp_S sp = NT + T" and enc: "encodes NT T sp b t"
    and c: "i < sp_N sp" "j < sp_N sp" "A < sp_S sp" "sp_at sp b i j A \<noteq> 0"
  shows "i \<le> j \<and> (i < j \<longrightarrow> A < NT)"
proof -
  from enc c have "(i, j, A) \<in> set (tree_spans NT t 0)" and ok: "tree_ok NT T t"
    unfolding encodes_def by auto
  from tree_spans_range[OF ok this(1)] show ?thesis by simp
qed

lemma encodes_not_splitless:
  assumes S: "sp_S sp = NT + T" and enc: "encodes NT T sp b t"
  shows "\<not> splitless sp b"
proof
  assume "splitless sp b"
  then obtain i j A where ij: "i < j" "j < sp_N sp" and A: "A < sp_S sp"
    and nz: "sp_at sp b i j A \<noteq> 0" and ns: "\<not> has_split sp b i j"
    unfolding splitless_iff by blast
  from enc have ok: "tree_ok NT T t" and len: "yield_len t \<le> sp_N sp"
    and iff: "\<And>i j A. i < sp_N sp \<Longrightarrow> j < sp_N sp \<Longrightarrow> A < sp_S sp \<Longrightarrow>
                (sp_at sp b i j A \<noteq> 0) = ((i, j, A) \<in> set (tree_spans NT t 0))"
    unfolding encodes_def by auto
  have mem: "(i, j, A) \<in> set (tree_spans NT t 0)" using iff[of i j A] ij A nz by simp
  from tree_spans_split[OF ok mem ij(1)] obtain k B C where
    k: "i \<le> k" "k < j" and B: "B < NT + T" and C: "C < NT + T"
    and m1: "(i, k, B) \<in> set (tree_spans NT t 0)"
    and m2: "(k + 1, j, C) \<in> set (tree_spans NT t 0)" by blast
  have "sp_at sp b i k B \<noteq> 0" using iff[of i k B] m1 k ij B S by simp
  moreover have "sp_at sp b (k + 1) j C \<noteq> 0" using iff[of "k + 1" j C] m2 k ij C S by simp
  ultimately have "has_split sp b i j"
    unfolding has_split_iff using k B C S by (intro exI[of _ k] exI[of _ B] exI[of _ C]) simp
  with ns show False by simp
qed

lemma encodes_all_well_typed:
  assumes S: "sp_S sp = NT + T" and enc: "\<forall>b<sp_batch sp. \<exists>t. encodes NT T sp b t"
  shows "well_typed NT sp"
  unfolding well_typed_def using encodes_well_typed[OF S] enc by blast

lemma tree3_simps:
  "sp_batch tree3 = 1" "sp_N tree3 = 3" "sp_S tree3 = 2"
  "sp_at tree3 b i j x = (if (b, i, j, x) \<in> set [(0, 0, 0, 1), (0, 1, 1, 1), (0, 2, 2, 1), (0, 1, 2, 0), (0, 0, 2, 0)] then 1 else 0)"
  by (simp_all add: tree3_def spans_of_list_def)

lemma tree3_cover: "cover tree3 0 = [(0, 0, 1), (0, 2, 0), (1, 1, 1), (1, 2, 0), (2, 2, 1)]"
  by (simp add: cover_def tree3_simps upt_rec)

lemma tree3_encodes: "encodes 1 1 tree3 0 (PNode 0 (PLeaf 0) (PNode 0 (PLeaf 0) (PLeaf 0)))"
  unfolding encodes_def by (simp add: tree3_simps All_less_Suc numeral_3_eq_3 numeral_2_eq_2)

lemma below_diagonal4_simps:
  "sp_batch below_diagonal4 = 1" "sp_N below_diagonal4 = 4" "sp_S below_diagonal4 = 2"
  "sp_at below_diagonal4 b i j x = (if (b, i, j, x) \<in> set [(0, 0, 2, 0), (0, 3, 2, 1)] then 1 else 0)"
  by (simp_all add: below_diagonal4_def spans_of_list_def)

lemma below_diagonal4_cover: "cover below_diagonal4 0 = [(0, 2, 0), (3, 2, 1)]"
  by (simp add: cover_def below_diagonal4_simps upt_rec)

lemma wide_terminal3_simps:
  "sp_batch wide_terminal3 = 1" "sp_N wide_terminal3 = 3" "sp_S wide_terminal3 = 2"
  "sp_at wide_terminal3 b i j x = (if (b, i, j, x) \<in> set [(0, 0, 0, 1), (0, 1, 1, 1), (0, 0, 1, 1), (0, 1, 2, 0)] then 1 else 0)"
  by (simp_all add: wide_terminal3_def spans_of_list_def)

lemma wide_terminal3_cover: "cover wide_terminal3 0 = [(0, 0, 1), (0, 1, 1), (1, 1, 1), (1, 2, 0)]"
  by (simp add: cover_def wide_terminal3_simps upt_rec)

lemma no_split3_simps:
  "sp_batch no_split3 = 1" "sp_N no_split3 = 3" "sp_S no_split3 = 2"
  "sp_at no_split3 b i j x = (if (b, i, j, x) \<in> set [(0, 0, 0, 1), (0, 1, 1, 1), (0, 1, 2, 0)] then 1 else 0)"
  by (simp_all add: no_split3_def spans_of_list_def)

lemma no_split3_well_typed: "well_typed 1 no_split3"
  unfolding well_typed_def by (auto simp: no_split3_simps)

lemma no_split3_splitless: "splitless no_split3 0"
  by (simp add: splitless_def has_split_def no_split3_simps upt_rec)

section \<open>The claims\<close>

text \<open>
  C8: the two chart orientations are mirror images of each other. After \<open>k\<close> iterations of
  the main loop (\<open>k = 0\<close> is the state before the loop), for every width \<open>w\<close> from 1 to
  \<open>k\<close>, every batch element \<open>b\<close>, start \<open>i \<le> N - w - 1\<close> and nonterminal \<open>s\<close>,
  \<open>beta[B][b, i + w, N - 1 - w, s] = beta[A][b, i, w, s]\<close>, and the terminal cells satisfy
  \<open>beta[B][b, i, N - 1, t] = beta[A][b, i, 0, t]\<close> for every terminal state \<open>t\<close>.
\<close>

theorem chart_orientations_mirror:
  assumes "k < dim_N sc"
  shows "(\<forall>w b i s. 1 \<le> w \<and> w \<le> k \<and> i + w < dim_N sc \<and> s < dim_NT sc \<longrightarrow>
            betaB (dp_loop sc k) b (i + w) (dim_N sc - 1 - w) s = betaA (dp_loop sc k) b i w s)
       \<and> (\<forall>b i t. i < dim_N sc \<and> dim_NT sc \<le> t \<and> t < dim_S sc \<longrightarrow>
            betaB (dp_loop sc k) b i (dim_N sc - 1) t = betaA (dp_loop sc k) b i 0 t)"
proof (intro conjI allI impI)
  fix w b i s
  assume h: "1 \<le> w \<and> w \<le> k \<and> i + w < dim_N sc \<and> s < dim_NT sc"
  then have "0 < w" "w < dim_N sc" using assms by arith+
  from betaB_loop_mirror[OF assms this, of b "i + w" s] h
  show "betaB (dp_loop sc k) b (i + w) (dim_N sc - 1 - w) s = betaA (dp_loop sc k) b i w s"
    by simp
next
  fix b i t
  assume h: "i < dim_N sc \<and> dim_NT sc \<le> t \<and> t < dim_S sc"
  have "betaB (dp_loop sc k) b i (dim_N sc - 1) t = betaB (dp_init sc) b i (dim_N sc - 1) t"
    by (rule betaB_loop_last[OF assms])
  also have "\<dots> = betaA (dp_init sc) b i 0 t"
    using h by (simp add: dp_init_def)
  also have "\<dots> = betaA (dp_loop sc k) b i 0 t"
    by (simp add: betaA_loop_0)
  finally show "betaB (dp_loop sc k) b i (dim_N sc - 1) t = betaA (dp_loop sc k) b i 0 t" .
qed

theorem chart_orientations_mirror_witness:
  "betaB (dp_loop (log_convert (ones_scores 3)) 2) 0 2 0 0
     = betaA (dp_loop (log_convert (ones_scores 3)) 2) 0 0 2 0"
  using chart_orientations_mirror[of 2 "log_convert (ones_scores 3)",
          THEN conjunct1, rule_format, of 2 0 0 0]
  by (simp add: ones_scores_def numeral_2_eq_2)

text \<open>
  C10: calling \<open>CKY._dp\<close> or \<open>CKY_CRF._dp\<close> with \<open>lengths\<close> omitted returns what the call
  with \<open>lengths\<close> set to the full length \<open>N\<close> for every batch element returns.
\<close>

theorem lengths_omitted_is_full_length:
  "cky_dp sc None = cky_dp sc (Some (replicate (dim_batch sc) (int (dim_N sc))))
   \<and> cky_crf_dp csc None = cky_crf_dp csc (Some (replicate (crf_batch csc) (int (crf_N csc))))"
  by (simp add: cky_dp_def cky_crf_dp_def)

text \<open>
  C1 (as amended): for every grammar with at least two words, one nonterminal, one terminal
  and one batch element, the total \<open>CKY._dp\<close> returns under the Log semiring is what
  \<open>CKY.enumerate\<close> returns, and it is the logarithm of the sum, over the scores \<open>rs\<close> of
  the enumerated parse trees (terminal scores, rule scores and root score added up), of
  their exponentials. The potentials are real numbers.
\<close>

theorem cky_log_total_is_log_sum_exp:
  fixes sc :: "real scores"
  assumes "2 \<le> dim_N sc" "1 \<le> dim_NT sc" "1 \<le> dim_T sc" "1 \<le> dim_batch sc"
  shows "\<exists>v ds. log_Z (log_convert sc) None = Inr v
            \<and> cky_enumerate (log_convert sc) = Inr v
            \<and> enumerate_scores (log_convert sc) = Inr ds \<and> ds \<noteq> []
            \<and> (\<forall>b<dim_batch sc. \<exists>rs. map (\<lambda>d. d b) ds = map LogVal rs
                    \<and> v ! b = LogVal (ln (\<Sum>r\<leftarrow>rs. exp r)))"
proof -
  let ?sc = "log_convert sc"
  let ?v = "map (\<lambda>b. \<Sum>x<dim_NT ?sc. gsum ?sc b x 0 (dim_N ?sc) * roots ?sc b x)
                [0..<dim_batch ?sc]"
  have dp: "log_Z ?sc None = Inr ?v"
    by (rule log_Z_full) (use assms in simp_all)
  have en: "cky_enumerate ?sc = Inr ?v"
    by (rule cky_enumerate_value(1)) (use assms in simp_all)
  from cky_enumerate_value(2)[of ?sc] assms obtain ds where
    ds: "enumerate_scores ?sc = Inr ds" "ds \<noteq> []"
    and sums: "\<And>b. sum_list (map (\<lambda>s. s b) ds)
                  = (\<Sum>x<dim_NT ?sc. gsum ?sc b x 0 (dim_N ?sc) * roots ?sc b x)"
    by auto
  have fin: "d b \<noteq> LogZero" if "d \<in> set ds" for d b
  proof (rule enumerate_scores_pred[where P="\<lambda>a. a \<noteq> LogZero" and sc="?sc", OF _ _ _ _ _ ds(1) that])
    show "2 \<le> dim_N ?sc" using assms by simp
    show "\<And>a b. a \<noteq> LogZero \<Longrightarrow> b \<noteq> LogZero \<Longrightarrow> a * b \<noteq> LogZero"
      by (case_tac a; case_tac b) simp_all
  qed (simp_all add: log_convert_def)
  have per: "\<exists>rs. map (\<lambda>d. d b) ds = map LogVal rs \<and> ?v ! b = LogVal (ln (\<Sum>r\<leftarrow>rs. exp r))"
    if b: "b < dim_batch sc" for b
  proof -
    define rs where "rs = map (\<lambda>d. case d b of LogVal r \<Rightarrow> r | LogZero \<Rightarrow> 0) ds"
    have m: "map (\<lambda>d. d b) ds = map LogVal rs"
      unfolding rs_def using fin[of _ b] by (auto split: logsr.splits)
    have "rs \<noteq> []" using ds(2) by (simp add: rs_def)
    then have "sum_list (map LogVal rs) = LogVal (ln (\<Sum>r\<leftarrow>rs. exp r))"
      by (rule log_sum_list)
    moreover have "?v ! b = sum_list (map (\<lambda>s. s b) ds)"
      using b by (simp add: sums del: upt_Suc)
    ultimately show ?thesis using m by auto
  qed
  show ?thesis using dp en ds per by blast
qed

theorem cky_log_total_is_log_sum_exp_witness:
  "log_Z (log_convert (ones_scores 2)) None = cky_enumerate (log_convert (ones_scores 2))"
  using cky_log_total_is_log_sum_exp[of "ones_scores 2"] by (auto simp: ones_scores_def)

text \<open>
  C1 as stated fails for a sentence of one word (\<open>N = 1\<close>, \<open>NT = T = 1\<close>, every potential
  1.0): the chart has no nonterminal cell of width 0, so \<open>_dp\<close> returns \<open>zero\<close>, while
  \<open>enumerate\<close> reads \<open>terms[:, 0, x - NT]\<close> with the index \<open>-1\<close> and returns 2.0.
\<close>

theorem cky_log_one_word_counterexample:
  "log_Z (log_convert (ones_scores 1)) None = Inr [LogZero]
   \<and> cky_enumerate (log_convert (ones_scores 1)) = Inr [LogVal 2]
   \<and> log_Z (log_convert (ones_scores 1)) None \<noteq> cky_enumerate (log_convert (ones_scores 1))"
proof -
  have dp: "log_Z (log_convert (ones_scores 1)) None = Inr [LogZero]"
    by (simp add: log_Z_def cky_dp_def dp_finish_def dot_top_def ones_scores_def log_convert_def dp_loop_def dp_init_def
        top_rows_def top_assign_def py_index_def dim_S_def zero_logsr_def)
  have en: "cky_enumerate (log_convert (ones_scores 1)) = Inr [LogVal 2]"
    by (simp add: cky_enumerate_def enumerate_scores_def enumerate_gen.simps
        ones_scores_def log_convert_def py_index_def zero_logsr_def)
  show ?thesis unfolding dp en by simp
qed

text \<open>
  C2 (as amended): for every grammar with at least two words, one nonterminal, one terminal
  and one batch element, the total \<open>CKY._dp\<close> returns under the Max semiring is what
  \<open>CKY.enumerate\<close> returns, and it is the maximum of the scores \<open>rs\<close> of the enumerated
  parse trees.
\<close>

theorem cky_max_total_is_best_score:
  fixes sc :: "real scores"
  assumes "2 \<le> dim_N sc" "1 \<le> dim_NT sc" "1 \<le> dim_T sc" "1 \<le> dim_batch sc"
  shows "\<exists>v ds. log_Z (max_convert sc) None = Inr v
            \<and> cky_enumerate (max_convert sc) = Inr v
            \<and> enumerate_scores (max_convert sc) = Inr ds \<and> ds \<noteq> []
            \<and> (\<forall>b<dim_batch sc. \<exists>rs. map (\<lambda>d. d b) ds = map MaxVal rs
                    \<and> v ! b = MaxVal (Max (set rs)))"
proof -
  let ?sc = "max_convert sc"
  let ?v = "map (\<lambda>b. \<Sum>x<dim_NT ?sc. gsum ?sc b x 0 (dim_N ?sc) * roots ?sc b x)
                [0..<dim_batch ?sc]"
  have dp: "log_Z ?sc None = Inr ?v"
    by (rule log_Z_full) (use assms in simp_all)
  have en: "cky_enumerate ?sc = Inr ?v"
    by (rule cky_enumerate_value(1)) (use assms in simp_all)
  from cky_enumerate_value(2)[of ?sc] assms obtain ds where
    ds: "enumerate_scores ?sc = Inr ds" "ds \<noteq> []"
    and sums: "\<And>b. sum_list (map (\<lambda>s. s b) ds)
                  = (\<Sum>x<dim_NT ?sc. gsum ?sc b x 0 (dim_N ?sc) * roots ?sc b x)"
    by auto
  have fin: "d b \<noteq> MaxZero" if "d \<in> set ds" for d b
  proof (rule enumerate_scores_pred[where P="\<lambda>a. a \<noteq> MaxZero" and sc="?sc", OF _ _ _ _ _ ds(1) that])
    show "2 \<le> dim_N ?sc" using assms by simp
    show "\<And>a b. a \<noteq> MaxZero \<Longrightarrow> b \<noteq> MaxZero \<Longrightarrow> a * b \<noteq> MaxZero"
      by (case_tac a; case_tac b) simp_all
  qed (simp_all add: max_convert_def)
  have per: "\<exists>rs. map (\<lambda>d. d b) ds = map MaxVal rs \<and> ?v ! b = MaxVal (Max (set rs))"
    if b: "b < dim_batch sc" for b
  proof -
    define rs where "rs = map (\<lambda>d. case d b of MaxVal r \<Rightarrow> r | MaxZero \<Rightarrow> 0) ds"
    have m: "map (\<lambda>d. d b) ds = map MaxVal rs"
      unfolding rs_def using fin[of _ b] by (auto split: maxsr.splits)
    have "rs \<noteq> []" using ds(2) by (simp add: rs_def)
    then have "sum_list (map MaxVal rs) = MaxVal (Max (set rs))"
      by (rule max_sum_list)
    moreover have "?v ! b = sum_list (map (\<lambda>s. s b) ds)"
      using b by (simp add: sums del: upt_Suc)
    ultimately show ?thesis using m by auto
  qed
  show ?thesis using dp en ds per by blast
qed

theorem cky_max_total_is_best_score_witness:
  "log_Z (max_convert (ones_scores 2)) None = cky_enumerate (max_convert (ones_scores 2))"
  using cky_max_total_is_best_score[of "ones_scores 2"] by (auto simp: ones_scores_def)

text \<open>
  C2 as stated fails for a sentence of one word, for the same reason as C1.
\<close>

theorem cky_max_one_word_counterexample:
  "log_Z (max_convert (ones_scores 1)) None = Inr [MaxZero]
   \<and> cky_enumerate (max_convert (ones_scores 1)) = Inr [MaxVal 2]
   \<and> log_Z (max_convert (ones_scores 1)) None \<noteq> cky_enumerate (max_convert (ones_scores 1))"
proof -
  have dp: "log_Z (max_convert (ones_scores 1)) None = Inr [MaxZero]"
    by (simp add: log_Z_def cky_dp_def dp_finish_def dot_top_def ones_scores_def max_convert_def dp_loop_def dp_init_def
        top_rows_def top_assign_def py_index_def dim_S_def zero_maxsr_def)
  have en: "cky_enumerate (max_convert (ones_scores 1)) = Inr [MaxVal 2]"
    by (simp add: cky_enumerate_def enumerate_scores_def enumerate_gen.simps
        ones_scores_def max_convert_def py_index_def zero_maxsr_def)
  show ?thesis unfolding dp en by simp
qed

text \<open>
  C4: padding does not influence the total. Take two inputs with the same numbers of
  nonterminals and terminals, and a batch element \<open>b\<close> whose length \<open>L = lengths[b]\<close> is
  at least 1 and at most the padded size \<open>N\<close> of either input. If the two inputs have the
  same rule and root scores for \<open>b\<close> and the same terminal scores at the positions below
  \<open>L\<close>, then \<open>CKY._dp\<close>, when it returns on both, returns the same total for \<open>b\<close>: the
  terminal scores at the positions from \<open>L\<close> on, the padded sizes, and the inputs and
  lengths of the other batch elements are arbitrary. The bound \<open>1 \<le> L\<close> is needed: with
  \<open>lengths[b] = 0\<close> the index \<open>l - 1 = -1\<close> reads the last column of the chart.
\<close>

theorem padding_never_influences_total:
  assumes nt: "dim_NT sc1 = dim_NT sc2" and t: "dim_T sc1 = dim_T sc2"
    and b1: "b < dim_batch sc1" and b2: "b < dim_batch sc2"
    and len1: "length ls1 = dim_batch sc1" and len2: "length ls2 = dim_batch sc2"
    and L1: "ls1 ! b = L" and L2: "ls2 ! b = L"
    and Lpos: "1 \<le> L" and LN1: "L \<le> int (dim_N sc1)" and LN2: "L \<le> int (dim_N sc2)"
    and tm: "\<And>i t. int i < L \<Longrightarrow> terms sc1 b i t = terms sc2 b i t"
    and r: "\<And>x y z. rules sc1 b x y z = rules sc2 b x y z"
    and ro: "\<And>x. roots sc1 b x = roots sc2 b x"
    and ok1: "log_Z sc1 (Some ls1) = Inr v1" and ok2: "log_Z sc2 (Some ls2) = Inr v2"
  shows "v1 ! b = v2 ! b"
proof -
  have v1: "v1 ! b = (\<Sum>x<dim_NT sc1. betaA (dp_loop sc1 (dim_N sc1 - 1)) b 0 (nat L - 1) x
                     * roots sc1 b x)"
    using log_Z_at[OF ok1 len1 b1] Lpos LN1 L1 by simp
  have v2: "v2 ! b = (\<Sum>x<dim_NT sc2. betaA (dp_loop sc2 (dim_N sc2 - 1)) b 0 (nat L - 1) x
                     * roots sc2 b x)"
    using log_Z_at[OF ok2 len2 b2] Lpos LN2 L2 by simp
  have "betaA (dp_loop sc1 (dim_N sc1 - 1)) b 0 (nat L - 1) x
      = betaA (dp_loop sc2 (dim_N sc2 - 1)) b 0 (nat L - 1) x" if "x < dim_NT sc1" for x
    by (rule top_cell_agree[OF nt t r _ _ _ that]) (use Lpos LN1 LN2 tm in auto)
  then show ?thesis unfolding v1 v2 nt[symmetric] by (simp add: ro)
qed

text \<open>
  The theorem at a sentence of two words: alone, and padded to three positions with
  another terminal score at the padded position.
\<close>

theorem padding_never_influences_total_witness:
  "log_Z (log_convert (ones_scores 2)) (Some [2]) = Inr [LogVal 4]
   \<and> (\<exists>v. log_Z (log_convert ((ones_scores 3)\<lparr>terms := \<lambda>b i t. if i < 2 then 1 else 7\<rparr>))
             (Some [2]) = Inr v
          \<and> v ! 0 = LogVal 4)"
proof -
  let ?sc1 = "log_convert (ones_scores 2)"
  let ?sc2 = "log_convert ((ones_scores 3)\<lparr>terms := \<lambda>b i t. if i < 2 then 1 else 7\<rparr>)"
  have e1: "log_Z ?sc1 (Some [2]) = Inr [LogVal 4]"
    by (simp add: log_Z_def cky_dp_def dp_finish_def dot_top_def ones_scores_def log_convert_def
        dp_loop_def dp_init_def dp_step_def dp_write_def rule_use_block_def span_from_def
        rule_use_w_def term_use_def Let_def top_rows_def top_assign_def py_index_def dim_S_def
        zero_logsr_def numeral_2_eq_2)
  obtain v where e2: "log_Z ?sc2 (Some [2]) = Inr v"
    using log_Z_ok[of ?sc2 "[2]"] by (auto simp: ones_scores_def)
  have "[LogVal 4] ! 0 = v ! 0"
    by (rule padding_never_influences_total[of ?sc1 ?sc2 0 "[2]" "[2]" 2, OF _ _ _ _ _ _ _ _ _ _ _ _ _ _ e1 e2])
      (simp_all add: ones_scores_def log_convert_def)
  then show ?thesis using e1 e2 by simp
qed

text \<open>
  With \<open>lengths[b] = 0\<close> every position is padding, and the total still depends on the
  terminal scores: \<open>l - 1 = -1\<close> selects the last column of the chart, the cell of the
  whole padded sentence.
\<close>

theorem padding_length_zero_counterexample:
  "log_Z (log_convert (ones_scores 2)) (Some [0]) = Inr [LogVal 4]
   \<and> log_Z (log_convert ((ones_scores 2)\<lparr>terms := \<lambda>b i t. 2\<rparr>)) (Some [0]) = Inr [LogVal 6]"
  by (simp add: log_Z_def cky_dp_def dp_finish_def dot_top_def ones_scores_def log_convert_def
      dp_loop_def dp_init_def dp_step_def dp_write_def rule_use_block_def span_from_def
      rule_use_w_def term_use_def Let_def top_rows_def top_assign_def py_index_def dim_S_def
      zero_logsr_def numeral_2_eq_2)




text \<open>
  C3: the concrete scenario. For one batch element, two words, one nonterminal and one
  terminal symbol, with every score equal to 1.0, \<open>CKY._dp\<close> under the Log semiring
  returns the total 4.0, and \<open>CKY.marginals\<close> gives 1.0 at every edge of the single
  derivation: the terminal at each of the two positions, the rule that rewrites the
  nonterminal into two terminals over the whole sentence, and the root.
\<close>

theorem concrete_scenario_total_and_marginals:
  "log_Z (log_convert (ones_scores 2)) None = Inr [LogVal 4]
   \<and> term_marginal (log_convert (ones_scores 2)) None 0 0 0 1
   \<and> term_marginal (log_convert (ones_scores 2)) None 0 1 0 1
   \<and> rule_marginal (log_convert (ones_scores 2)) None 0 0 0 0 1 1 1
   \<and> root_marginal (log_convert (ones_scores 2)) None 0 0 1"
proof -
  let ?sc = "log_convert (ones_scores 2)"
  have total: "log_Z ?sc None = Inr [LogVal 4]"
    by (simp add: log_Z_def cky_dp_def dp_finish_def dot_top_def ones_scores_def log_convert_def
        dp_loop_def dp_init_def dp_step_def dp_write_def rule_use_block_def span_from_def
        rule_use_w_def term_use_def Let_def top_rows_def top_assign_def py_index_def dim_S_def
        zero_logsr_def numeral_2_eq_2)
  have t0: "resume_from_term_use ?sc None (set_entry3 (term_use ?sc) 0 0 0 (LogVal h))
              = Inr [LogVal (h + 3)]" for h
    by (simp add: resume_from_term_use_def set_entry3_def
        log_Z_def cky_dp_def dp_finish_def dot_top_def ones_scores_def log_convert_def
        dp_loop_def dp_init_def dp_step_def dp_write_def rule_use_block_def span_from_def
        rule_use_w_def term_use_def Let_def top_rows_def top_assign_def py_index_def dim_S_def
        zero_logsr_def numeral_2_eq_2)
  have t1: "resume_from_term_use ?sc None (set_entry3 (term_use ?sc) 0 1 0 (LogVal h))
              = Inr [LogVal (h + 3)]" for h
    by (simp add: resume_from_term_use_def set_entry3_def
        log_Z_def cky_dp_def dp_finish_def dot_top_def ones_scores_def log_convert_def
        dp_loop_def dp_init_def dp_step_def dp_write_def rule_use_block_def span_from_def
        rule_use_w_def term_use_def Let_def top_rows_def top_assign_def py_index_def dim_S_def
        zero_logsr_def numeral_2_eq_2)
  have ru: "rule_use_block ?sc (dp_loop ?sc 0) (0 + 1) 0 0 0 1 1 = LogVal 3"
    by (simp add: ones_scores_def log_convert_def
        dp_loop_def dp_init_def rule_use_block_def
        rule_use_w_def term_use_def Let_def dim_S_def)
  have r0: "resume_from_rule_use ?sc None (0 + 1)
              (set_entry5 (rule_use_block ?sc (dp_loop ?sc 0) (0 + 1)) 0 0 0 1 1 (LogVal h))
              = Inr [LogVal (h + 1)]" for h
    by (simp add: resume_from_rule_use_def set_entry5_def
        dp_finish_def dot_top_def ones_scores_def log_convert_def
        dp_loop_def dp_init_def dp_step_def dp_write_def rule_use_block_def span_from_def
        rule_use_w_def term_use_def Let_def top_rows_def top_assign_def py_index_def dim_S_def
        zero_logsr_def numeral_2_eq_2)
  have dp: "\<exists>v tp st. cky_dp ?sc None = Inr (v, tp, st) \<and> tp 0 0 = LogVal 3"
    by (simp add: cky_dp_def dp_finish_def dot_top_def ones_scores_def log_convert_def
        dp_loop_def dp_init_def dp_step_def dp_write_def rule_use_block_def span_from_def
        rule_use_w_def term_use_def Let_def top_rows_def top_assign_def py_index_def dim_S_def
        zero_logsr_def numeral_2_eq_2)
  have tp: "resume_from_top ?sc (set_entry2 tp 0 0 (LogVal h))
              = Inr [LogVal (h + 1)]" for h tp
    by (simp add: resume_from_top_def set_entry2_def dot_top_def ones_scores_def log_convert_def)
  have m0: "term_marginal ?sc None 0 0 0 1"
    unfolding term_marginal_def
    by (intro conjI exI[of _ 1] is_grad_shift[OF t0])
       (simp_all add: ones_scores_def log_convert_def term_use_def)
  have m1: "term_marginal ?sc None 0 1 0 1"
    unfolding term_marginal_def
    by (intro conjI exI[of _ 1] is_grad_shift[OF t1])
       (simp_all add: ones_scores_def log_convert_def term_use_def)
  have m2: "rule_marginal ?sc None 0 0 0 0 1 1 1"
    unfolding rule_marginal_def
    by (intro conjI exI[of _ 3] ru is_grad_shift[OF r0])
       (simp_all add: ones_scores_def log_convert_def dim_S_def)
  from dp obtain v tp st where dpv: "cky_dp ?sc None = Inr (v, tp, st)"
    and tpv: "tp 0 0 = LogVal 3" by blast
  have m3: "root_marginal ?sc None 0 0 1"
    unfolding root_marginal_def
    by (intro conjI exI[of _ v] exI[of _ tp] exI[of _ st] exI[of _ 3] dpv tpv
          is_grad_shift[OF tp])
       (simp_all add: ones_scores_def log_convert_def)
  show ?thesis using total m0 m1 m2 m3 by blast
qed

text \<open>
  C9: \<open>CKY_CRF\<close> honours the contract of \<open>CKY\<close>. For scores \<open>scores[b, N, N, NT]\<close> with at
  least one word and at least one label, \<open>CKY_CRF._dp\<close> (with \<open>lengths\<close> omitted) returns,
  and what it returns is what \<open>CKY_CRF.enumerate\<close> returns: under the Log semiring, for every
  batch element, the log of the sum of the exponentiated scores of all the derivations
  \<open>enumerate\<close> produces (the list is not empty); under the Max semiring, the maximum of
  these scores.
\<close>

theorem crf_total_is_sum_over_derivations:
  fixes sc :: "real crf_scores"
  assumes "1 \<le> crf_N sc" and "1 \<le> crf_NT sc"
  shows "(\<exists>v st ds. cky_crf_dp (crf_log_convert sc) None = Inr (v, st)
            \<and> cky_crf_enumerate (crf_log_convert sc) = Inr v
            \<and> crf_enumerate_scores (crf_log_convert sc) = Inr ds \<and> ds \<noteq> []
            \<and> (\<forall>b<crf_batch sc. \<exists>rs. map (\<lambda>d. d b) ds = map LogVal rs
                    \<and> v ! b = LogVal (ln (\<Sum>r\<leftarrow>rs. exp r))))
       \<and> (\<exists>v st ds. cky_crf_dp (crf_max_convert sc) None = Inr (v, st)
            \<and> cky_crf_enumerate (crf_max_convert sc) = Inr v
            \<and> crf_enumerate_scores (crf_max_convert sc) = Inr ds \<and> ds \<noteq> []
            \<and> (\<forall>b<crf_batch sc. \<exists>rs. map (\<lambda>d. d b) ds = map MaxVal rs
                    \<and> v ! b = MaxVal (Max (set rs))))"
  using crf_log_total[OF assms] crf_max_total[OF assms] by (rule conjI)

text \<open>The theorem at a sentence of three words with two labels.\<close>

theorem crf_total_is_sum_over_derivations_witness:
  "map_sum id fst (cky_crf_dp (crf_log_convert (crf_ones 3)) None)
     = cky_crf_enumerate (crf_log_convert (crf_ones 3))
   \<and> map_sum id fst (cky_crf_dp (crf_max_convert (crf_ones 3)) None)
     = cky_crf_enumerate (crf_max_convert (crf_ones 3))"
  using crf_total_is_sum_over_derivations[of "crf_ones 3"] by (auto simp: crf_ones_def)

text \<open>
  C6: the assertions of \<open>CKY.to_parts\<close>. Let \<open>extra = (NT, T)\<close> with \<open>S = NT + T\<close>, let
  the sentence have at least one word, and let \<open>lengths\<close> hold one length between 0 and
  \<open>N\<close> for every batch element. For a well typed labeling (nonzero entries on or above
  the diagonal, nonterminals on the spans of more than one word), \<open>to_parts\<close> fails with
  the assertion \<open>B is not None\<close> exactly when some batch element has a labeled span of
  more than one word without a split into two labeled spans, and returns otherwise.
  For every labeling that encodes one binary tree per batch element it returns.
\<close>

theorem to_parts_asserts_iff_no_split:
  assumes S: "sp_S sp = NT + T" and N: "1 \<le> sp_N sp" and len: "length ls = sp_batch sp"
    and valid: "\<forall>l\<in>set ls. 0 \<le> l \<and> l \<le> int (sp_N sp)"
  shows "(well_typed NT sp \<longrightarrow>
            (to_parts sp (NT, T) (Some ls) = Inl AssertSplit) = (\<exists>b<sp_batch sp. splitless sp b)
          \<and> (\<not> (\<exists>b<sp_batch sp. splitless sp b) \<longrightarrow> (\<exists>p. to_parts sp (NT, T) (Some ls) = Inr p)))
       \<and> ((\<forall>b<sp_batch sp. \<exists>t. encodes NT T sp b t) \<longrightarrow>
            (\<exists>p. to_parts sp (NT, T) (Some ls) = Inr p))"
proof (intro conjI impI)
  assume wt: "well_typed NT sp"
  show "(to_parts sp (NT, T) (Some ls) = Inl AssertSplit) = (\<exists>b<sp_batch sp. splitless sp b)"
    using to_parts_cases[OF S N len valid wt] by (cases "\<exists>b<sp_batch sp. splitless sp b") auto
next
  assume "well_typed NT sp" "\<not> (\<exists>b<sp_batch sp. splitless sp b)"
  then show "\<exists>p. to_parts sp (NT, T) (Some ls) = Inr p"
    using to_parts_cases(2)[OF S N len valid] by blast
next
  assume enc: "\<forall>b<sp_batch sp. \<exists>t. encodes NT T sp b t"
  have "well_typed NT sp" by (rule encodes_all_well_typed[OF S enc])
  moreover have "\<not> (\<exists>b<sp_batch sp. splitless sp b)"
    using enc encodes_not_splitless[OF S] by blast
  ultimately show "\<exists>p. to_parts sp (NT, T) (Some ls) = Inr p"
    using to_parts_cases(2)[OF S N len valid] by blast
qed

text \<open>
  The theorem at the tree over three words \<open>(X (t) (X (t) (t)))\<close> with one nonterminal
  and one terminal, where \<open>to_parts\<close> returns, and at the same labeling without the last
  leaf, where the span of the last two words has no split and the assertion fails.
\<close>

theorem to_parts_asserts_iff_no_split_witness:
  "encodes 1 1 tree3 0 (PNode 0 (PLeaf 0) (PNode 0 (PLeaf 0) (PLeaf 0)))
   \<and> \<not> isl (to_parts tree3 (1, 1) (Some [3]))
   \<and> well_typed 1 no_split3 \<and> splitless no_split3 0
   \<and> to_parts no_split3 (1, 1) (Some [3]) = Inl AssertSplit"
proof -
  have enc: "encodes 1 1 tree3 0 (PNode 0 (PLeaf 0) (PNode 0 (PLeaf 0) (PLeaf 0)))"
    by (rule tree3_encodes)
  have "\<forall>b<sp_batch tree3. \<exists>t. encodes 1 1 tree3 b t"
    using enc by (auto simp: tree3_simps)
  moreover have "sp_S tree3 = 1 + 1" "length [3::int] = sp_batch tree3"
    "\<forall>l\<in>set [3::int]. 0 \<le> l \<and> l \<le> int (sp_N tree3)"
    by (simp_all add: tree3_simps)
  ultimately have ret: "\<exists>p. to_parts tree3 (1, 1) (Some [3]) = Inr p"
    using to_parts_asserts_iff_no_split[of tree3 1 1 "[3]"] by (simp add: tree3_simps)
  have "\<exists>b<sp_batch no_split3. splitless no_split3 b"
    using no_split3_splitless by (auto simp: no_split3_simps)
  moreover have "sp_S no_split3 = 1 + 1" "length [3::int] = sp_batch no_split3"
    "\<forall>l\<in>set [3::int]. 0 \<le> l \<and> l \<le> int (sp_N no_split3)"
    by (simp_all add: no_split3_simps)
  ultimately have "to_parts no_split3 (1, 1) (Some [3]) = Inl AssertSplit"
    using to_parts_asserts_iff_no_split[of no_split3 1 1 "[3]"] no_split3_well_typed
    by (simp add: no_split3_simps)
  then show ?thesis using enc ret no_split3_well_typed no_split3_splitless by auto
qed

text \<open>
  The claim as stated fails in both directions. The tree over three words, passed with
  \<open>extra = (1, 2)\<close>, fails with an assertion (\<open>S == NT + T\<close>) though every span has its
  split, and passed without \<open>lengths\<close> (the default \<open>None\<close>) it does not succeed either.
  A labeling with an entry below the diagonal has a span of three words without a split,
  and \<open>to_parts\<close> returns: the span itself and the entry \<open>(3, 2)\<close> pass the test
  \<open>k_2 == k + 1\<close>. A labeling with a terminal on a span of two words and a span without a
  split after it fails with an \<open>IndexError\<close> at \<open>rules[b, A, B, C]\<close>, not with an assertion.
\<close>

theorem to_parts_assertion_counterexample:
  "to_parts tree3 (1, 2) (Some [3]) = Inl AssertShape \<and> \<not> splitless tree3 0
   \<and> to_parts tree3 (1, 1) None = Inl TypeError
   \<and> splitless below_diagonal4 0 \<and> \<not> isl (to_parts below_diagonal4 (1, 1) (Some [4]))
   \<and> splitless wide_terminal3 0 \<and> to_parts wide_terminal3 (1, 1) (Some [3]) = Inl IndexError"
proof -
  have a: "to_parts tree3 (1, 2) (Some [3]) = Inl AssertShape"
    by (simp add: to_parts_def tree3_simps)
  have b: "\<not> splitless tree3 0"
    by (simp add: splitless_def has_split_def tree3_simps upt_rec)
  have n: "to_parts tree3 (1, 1) None = Inl TypeError"
    by (simp add: to_parts_def batch_step_def tree3_simps)
  have c: "splitless below_diagonal4 0"
    by (simp add: splitless_def has_split_def below_diagonal4_simps upt_rec)
  have d: "\<not> isl (to_parts below_diagonal4 (1, 1) (Some [4]))"
    by (simp add: to_parts_def batch_step_def below_diagonal4_cover entry_step_def left_of_def
        right_of_def split_search_def py_index_def Let_def below_diagonal4_simps)
  have e: "splitless wide_terminal3 0"
    by (simp add: splitless_def has_split_def wide_terminal3_simps upt_rec)
  have f: "to_parts wide_terminal3 (1, 1) (Some [3]) = Inl IndexError"
    by (simp add: to_parts_def batch_step_def wide_terminal3_cover entry_step_def left_of_def
        right_of_def split_search_def py_index_def Let_def wide_terminal3_simps)
  show ?thesis using a b n c d e f by blast
qed

text \<open>
  C5: the round trip through \<open>CKY.to_parts\<close> and \<open>CKY.from_parts\<close>, at the labeling of
  the tree over three words \<open>(X (t) (X (t) (t)))\<close> with one nonterminal and one terminal
  and \<open>lengths = [3]\<close>. \<open>to_parts\<close> returns parts whose \<open>rules\<close> has the four axes
  \<open>(batch, NT, S, S)\<close>, with the two rules of the tree counted; \<open>from_parts\<close>, given these
  parts, raises \<open>ValueError\<close> at its first line, which unpacks \<open>rules.shape\<close> into six
  names. The dense labeling is not returned.
\<close>

theorem round_trip_raises_value_error:
  "\<not> isl (to_parts tree3 (1, 1) (Some [3]))
   \<and> t_shape (pt_rules (projr (to_parts tree3 (1, 1) (Some [3])))) = [1, 1, 2, 2]
   \<and> t_at (pt_rules (projr (to_parts tree3 (1, 1) (Some [3])))) [0, 0, 1, 0] = 1
   \<and> t_at (pt_rules (projr (to_parts tree3 (1, 1) (Some [3])))) [0, 0, 1, 1] = 1
   \<and> from_parts (projr (to_parts tree3 (1, 1) (Some [3]))) = Inl ValueError"
proof -
  have "\<exists>p. to_parts tree3 (1, 1) (Some [3]) = Inr p \<and> t_shape (pt_rules p) = [1, 1, 2, 2]
          \<and> t_at (pt_rules p) [0, 0, 1, 0] = 1 \<and> t_at (pt_rules p) [0, 0, 1, 1] = 1"
    by (simp add: to_parts_def batch_step_def tree3_cover entry_step_def left_of_def right_of_def
        split_search_def py_index_def Let_def tree3_simps)
  then obtain p where p: "to_parts tree3 (1, 1) (Some [3]) = Inr p"
    and sh: "t_shape (pt_rules p) = [1, 1, 2, 2]"
    and r: "t_at (pt_rules p) [0, 0, 1, 0] = 1" "t_at (pt_rules p) [0, 0, 1, 1] = 1"
    by blast
  have "from_parts p = Inl ValueError" using sh by (simp add: from_parts_def)
  then show ?thesis using p sh r by simp
qed

end
